theory Spec2Isabelle
  imports Main
begin

section \<open>JavaScript strings and arrays\<close>

text \<open>
  A JavaScript string is modelled as a \<^typ>\<open>string\<close>, one \<^typ>\<open>char\<close> per code unit, for
  text whose code units are below 256, as the text of a serial console is. An array of
  lines is a \<^typ>\<open>string list\<close>. Indices that the source keeps in a \<open>number\<close> and may
  compare with \<open>-1\<close> or \<open>0\<close> are \<^typ>\<open>int\<close>; a search result is an \<^typ>\<open>nat option\<close>,
  \<open>None\<close> standing for \<open>-1\<close>.
\<close>

text \<open>
  The white space and line terminators that \<open>trim\<close>, \<open>trimEnd\<close>, \<open>parseInt\<close> and the
  class \<open>\s\<close> recognise among these code units: tab, line feed, vertical tab, form feed,
  carriage return, space and no-break space.
\<close>

definition isWhiteSpace :: "char \<Rightarrow> bool" where
  "isWhiteSpace c \<longleftrightarrow>
     c = CHR 0x09 \<or> c = CHR 0x0A \<or> c = CHR 0x0B \<or> c = CHR 0x0C \<or> c = CHR 0x0D \<or> c = CHR 0x20
     \<or> c = CHR 0xA0"

definition trimStart :: "string \<Rightarrow> string" where
  "trimStart s = dropWhile isWhiteSpace s"

definition trimEnd :: "string \<Rightarrow> string" where
  "trimEnd s = rev (dropWhile isWhiteSpace (rev s))"

definition trim :: "string \<Rightarrow> string" where
  "trim s = trimEnd (trimStart s)"

text \<open>\<open>s.startsWith(pat)\<close>, the test behind every substring search.\<close>

fun startsWith :: "string \<Rightarrow> string \<Rightarrow> bool" where
  "startsWith s [] = True"
| "startsWith [] (p # ps) = False"
| "startsWith (c # cs) (p # ps) = (c = p \<and> startsWith cs ps)"

text \<open>\<open>s.indexOf(pat)\<close>: the least position at which \<open>pat\<close> occurs.\<close>

fun index_of :: "string \<Rightarrow> string \<Rightarrow> nat option" where
  "index_of [] pat = (if pat = [] then Some 0 else None)"
| "index_of (c # cs) pat =
     (if startsWith (c # cs) pat then Some 0 else map_option Suc (index_of cs pat))"

text \<open>\<open>s.indexOf(pat, from)\<close>: the start position is clamped to the length of \<open>s\<close>.\<close>

definition indexOf :: "string \<Rightarrow> string \<Rightarrow> nat \<Rightarrow> nat option" where
  "indexOf s pat from =
     (let k = min from (length s)
      in map_option (\<lambda>i. k + i) (index_of (drop k s) pat))"

definition includes_str :: "string \<Rightarrow> string \<Rightarrow> bool" where
  "includes_str s pat \<longleftrightarrow> index_of s pat \<noteq> None"

text \<open>\<open>s.slice(a, b)\<close> and \<open>xs.slice(a, b)\<close> for indices \<open>0 \<le> a\<close>, \<open>0 \<le> b\<close>.\<close>

definition slice :: "'a list \<Rightarrow> nat \<Rightarrow> nat \<Rightarrow> 'a list" where
  "slice xs a b = take (b - a) (drop a xs)"

text \<open>
  \<open>xs.slice(start)\<close> with any integer: a negative start counts from the end and is
  clamped at the head of the array.
\<close>

definition slice_from :: "'a list \<Rightarrow> int \<Rightarrow> 'a list" where
  "slice_from xs start =
     (let len = int (length xs);
          k = (if start < 0 then max (len + start) 0 else min start len)
      in drop (nat k) xs)"

text \<open>\<open>lines.join('\n')\<close>.\<close>

fun join :: "string list \<Rightarrow> string" where
  "join [] = []"
| "join [l] = l"
| "join (l # m # ls) = l @ CHR 0x0A # join (m # ls)"

text \<open>\<open>xs.findIndex((x, i) => p(x, i))\<close>, the index counted from \<open>i\<close>.\<close>

fun findIndex_from :: "nat \<Rightarrow> ('a \<Rightarrow> nat \<Rightarrow> bool) \<Rightarrow> 'a list \<Rightarrow> nat option" where
  "findIndex_from i p [] = None"
| "findIndex_from i p (x # xs) = (if p x i then Some i else findIndex_from (Suc i) p xs)"

definition findIndex :: "('a \<Rightarrow> nat \<Rightarrow> bool) \<Rightarrow> 'a list \<Rightarrow> nat option" where
  "findIndex p xs = findIndex_from 0 p xs"

section \<open>The serial console object\<close>

text \<open>
  \<open>SerialConsole\<close> of \<open>subsystems/serialConsole.ts\<close>. The port keeps what was written to
  it; the console keeps the events it has emitted.
\<close>

record SerialPort =
  path :: string
  baudRate :: int
  written :: "string list"
  closed :: bool

datatype console_event = Ev_open | Ev_close | Ev_data string | Ev_error string

record SerialConsole =
  port :: "SerialPort option"
  isOpen :: bool
  emitted :: "console_event list"

definition new_SerialConsole :: SerialConsole where
  "new_SerialConsole = \<lparr>port = None, isOpen = False, emitted = []\<rparr>"

definition emit :: "console_event \<Rightarrow> SerialConsole \<Rightarrow> SerialConsole" where
  "emit e c = c\<lparr>emitted := emitted c @ [e]\<rparr>"

definition console_connect :: "string \<Rightarrow> int \<Rightarrow> SerialConsole \<Rightarrow> SerialConsole" where
  "console_connect p b c =
     (if isOpen c then emit (Ev_error ''Serial port already open'') c
      else c\<lparr>port := Some \<lparr>path = p, baudRate = b, written = [], closed = False\<rparr>\<rparr>)"

text \<open>The handlers that \<open>connect\<close> installs on the port for its \<open>open\<close> and \<open>close\<close> events.\<close>

definition on_port_open :: "SerialConsole \<Rightarrow> SerialConsole" where
  "on_port_open c = emit Ev_open (c\<lparr>isOpen := True\<rparr>)"

definition on_port_close :: "SerialConsole \<Rightarrow> SerialConsole" where
  "on_port_close c = emit Ev_close (c\<lparr>isOpen := False\<rparr>)"

definition port_write :: "string \<Rightarrow> SerialPort \<Rightarrow> SerialPort" where
  "port_write d p = p\<lparr>written := written p @ [d]\<rparr>"

definition console_send :: "string \<Rightarrow> SerialConsole \<Rightarrow> SerialConsole" where
  "console_send d c =
     (case port c of
        Some p \<Rightarrow>
          if isOpen c then c\<lparr>port := Some (port_write (d @ [CHR 0x0A]) p)\<rparr>
          else emit (Ev_error ''Serial port not open'') c
      | None \<Rightarrow> emit (Ev_error ''Serial port not open'') c)"

definition console_disconnect :: "SerialConsole \<Rightarrow> SerialConsole" where
  "console_disconnect c =
     (case port c of
        Some p \<Rightarrow> if isOpen c then c\<lparr>port := Some (p\<lparr>closed := True\<rparr>)\<rparr> else c
      | None \<Rightarrow> c)"

text \<open>Everything the console has put on the wire.\<close>

definition transmitted :: "SerialConsole \<Rightarrow> string list" where
  "transmitted c = (case port c of Some p \<Rightarrow> written p | None \<Rightarrow> [])"

section \<open>The state of the \<open>/serial\<close> command\<close>

text \<open>
  The module-level variables of the slash-command processor. Arrays and console objects
  live in stores and the variables hold references, because \<open>recentLogs\<close> and
  \<open>globalThis.GEMINI_SERIAL_LOGS\<close> are two names of one array, as \<open>serial\<close> and
  \<open>globalThis.GEMINI_ACTIVE_SERIAL\<close> are of one console.
\<close>

type_synonym ref = nat

text \<open>The worker thread that mirrors the console in a window, with its \<open>workerData\<close>.\<close>

datatype worker = Worker string int

record cli_state =
  arrays :: "ref \<Rightarrow> string list"
  consoles :: "ref \<Rightarrow> SerialConsole"
  next_ref :: ref
  recentLogs :: ref
  GEMINI_SERIAL_LOGS :: ref
  lastCommandStartIdx :: int
  partialSerialLine :: string
  serial :: "ref option"
  serialWorker :: "worker option"
  GEMINI_ACTIVE_SERIAL :: "ref option"
  GEMINI_SERIAL_PORT :: "string option"
  serialHintShown :: bool

definition LOG_RING_SIZE :: nat where
  "LOG_RING_SIZE = 2000"

definition init_state :: cli_state where
  "init_state =
     \<lparr>arrays = (\<lambda>_. []), consoles = (\<lambda>_. new_SerialConsole), next_ref = 1,
      recentLogs = 0, GEMINI_SERIAL_LOGS = 0, lastCommandStartIdx = 0,
      partialSerialLine = [], serial = None, serialWorker = None,
      GEMINI_ACTIVE_SERIAL = None, GEMINI_SERIAL_PORT = None, serialHintShown = False\<rparr>"

definition logs_of :: "cli_state \<Rightarrow> string list" where
  "logs_of st = arrays st (recentLogs st)"

text \<open>What a tool reading \<open>globalThis.GEMINI_SERIAL_LOGS\<close> sees.\<close>

definition global_logs :: "cli_state \<Rightarrow> string list" where
  "global_logs st = arrays st (GEMINI_SERIAL_LOGS st)"

subsection \<open>The data handler\<close>

text \<open>
  \<open>recentLogs.push(line)\<close> and the eviction that follows it, for a ring of \<open>cap\<close> lines:
  \<open>splice(0, excess)\<close> removes the head of the array in place, and the saved index moves
  down with it.
\<close>

definition push_line :: "nat \<Rightarrow> string \<Rightarrow> cli_state \<Rightarrow> cli_state" where
  "push_line cap line st =
     (let a = recentLogs st;
          pushed = arrays st a @ [line]
      in if length pushed > cap then
           let excess = length pushed - cap
           in st\<lparr>arrays := (arrays st)(a := drop excess pushed),
                 lastCommandStartIdx := max 0 (lastCommandStartIdx st - int excess)\<rparr>
         else st\<lparr>arrays := (arrays st)(a := pushed)\<rparr>)"

text \<open>\<open>partialSerialLine.search(/\r?\n/)\<close>.\<close>

fun search_newline :: "string \<Rightarrow> nat option" where
  "search_newline [] = None"
| "search_newline (c # cs) =
     (if c = CHR 0x0A \<or> (c = CHR 0x0D \<and> (case cs of [] \<Rightarrow> False | d # _ \<Rightarrow> d = CHR 0x0A))
      then Some 0
      else map_option Suc (search_newline cs))"

lemma search_newline_less: "search_newline s = Some i \<Longrightarrow> i < length s"
  by (induction s arbitrary: i) (auto split: if_splits)

lemma partial_push_line [simp]: "partialSerialLine (push_line cap l st) = partialSerialLine st"
  by (simp add: push_line_def Let_def)

text \<open>
  The line-assembly loop: cut the pending text at each line break, trim the line at its
  end, and push it unless it is empty.
\<close>

function assemble_lines :: "cli_state \<Rightarrow> cli_state" where
  "assemble_lines st =
     (case search_newline (partialSerialLine st) of
        None \<Rightarrow> st
      | Some newlineIdx \<Rightarrow>
          let p = partialSerialLine st;
              line = trimEnd (slice p 0 newlineIdx);
              crlf = (p ! newlineIdx = CHR 0x0D \<and> slice p (newlineIdx + 1) (newlineIdx + 2) = [CHR 0x0A]);
              st1 = st\<lparr>partialSerialLine := drop (newlineIdx + (if crlf then 2 else 1)) p\<rparr>
          in assemble_lines (if length line > 0 then push_line LOG_RING_SIZE line st1 else st1))"
  by pat_completeness auto
termination
  by (relation "measure (\<lambda>st. length (partialSerialLine st))")
     (auto dest: search_newline_less)

declare assemble_lines.simps [simp del]

text \<open>
  The handler of the console's \<open>data\<close> event. \<open>showSerialHint\<close> comes first and leaves
  \<open>serialHintShown\<close> set. The handler also forwards the chunk to the worker and collects
  chunks in \<open>summaryBuf\<close>, which it empties again without use; that part reads and writes
  none of the variables kept here.
\<close>

definition on_data :: "string \<Rightarrow> cli_state \<Rightarrow> cli_state" where
  "on_data d st =
     assemble_lines (st\<lparr>serialHintShown := True, partialSerialLine := partialSerialLine st @ d\<rparr>)"

subsection \<open>The subcommands\<close>

text \<open>
  The branches of the \<open>/serial\<close> action, without the messages they add to the history.
  \<open>connect\<close> and \<open>disconnect\<close> take the port and the baud rate as already parsed.
\<close>

definition serial_disconnect :: "cli_state \<Rightarrow> cli_state" where
  "serial_disconnect st =
     (let st1 = (case serial st of
                   Some r \<Rightarrow> st\<lparr>consoles := (consoles st)(r := console_disconnect (consoles st r))\<rparr>
                 | None \<Rightarrow> st)
      in st1\<lparr>serialWorker := None, GEMINI_SERIAL_PORT := None, GEMINI_ACTIVE_SERIAL := None,
             serialHintShown := False\<rparr>)"

definition serial_connect :: "string \<Rightarrow> int \<Rightarrow> cli_state \<Rightarrow> cli_state" where
  "serial_connect p baud st =
     (let st1 = (case serial st of
                   Some r \<Rightarrow> st\<lparr>consoles := (consoles st)(r := console_disconnect (consoles st r))\<rparr>
                 | None \<Rightarrow> st);
          r = next_ref st1
      in st1\<lparr>serialHintShown := False,
             consoles := (consoles st1)(r := console_connect p baud new_SerialConsole),
             next_ref := Suc r,
             serial := Some r,
             serialWorker := Some (Worker p baud),
             GEMINI_SERIAL_PORT := Some p,
             GEMINI_ACTIVE_SERIAL := Some r\<rparr>)"

definition serial_clear :: "cli_state \<Rightarrow> cli_state" where
  "serial_clear st = st\<lparr>arrays := (arrays st)(recentLogs st := [])\<rparr>"

definition serial_send :: "string \<Rightarrow> cli_state \<Rightarrow> cli_state" where
  "serial_send args st =
     (case serial st of
        None \<Rightarrow> st
      | Some r \<Rightarrow>
          st\<lparr>lastCommandStartIdx := int (length (logs_of st)),
             consoles := (consoles st)(r := console_send args (consoles st r))\<rparr>)"

text \<open>
  \<open>parseInt(s, 10)\<close>: leading white space, an optional sign, then the longest run of
  decimal digits; \<open>None\<close> is \<open>NaN\<close>. The value is exact here; a double rounds integers
  beyond \<open>2^53\<close>, far above any array length the result is compared with.
\<close>

definition isDigit :: "char \<Rightarrow> bool" where
  "isDigit c \<longleftrightarrow> c \<in> set ''0123456789''"

definition digitValue :: "char \<Rightarrow> int" where
  "digitValue c = int (of_char c) - 48"

definition decimal :: "string \<Rightarrow> int" where
  "decimal ds = foldl (\<lambda>acc c. 10 * acc + digitValue c) 0 ds"

definition parseInt :: "string \<Rightarrow> int option" where
  "parseInt s =
     (let t = trimStart s;
          neg = (case t of [] \<Rightarrow> False | c # _ \<Rightarrow> c = CHR ''-'');
          signed = (case t of [] \<Rightarrow> False | c # _ \<Rightarrow> c = CHR ''-'' \<or> c = CHR ''+'');
          ds = takeWhile isDigit (if signed then tl t else t)
      in if ds = [] then None else Some (if neg then - decimal ds else decimal ds))"

text \<open>
  \<open>/serial tail\<close>: \<open>n = args ? parseInt(args, 10) || 20 : 20\<close>, then
  \<open>recentLogs.slice(-n)\<close>. An absent or empty argument, \<open>NaN\<close> and \<open>0\<close> are all falsy.
\<close>

definition tail_count :: "string option \<Rightarrow> int" where
  "tail_count args =
     (case args of
        None \<Rightarrow> 20
      | Some a \<Rightarrow>
          if a = [] then 20
          else (case parseInt a of None \<Rightarrow> 20 | Some v \<Rightarrow> if v = 0 then 20 else v))"

definition serial_tail :: "string option \<Rightarrow> cli_state \<Rightarrow> string list" where
  "serial_tail args st = slice_from (logs_of st) (- tail_count args)"

text \<open>
  \<open>/serial summarize\<close>: the start index is the saved one, or the first word of the
  argument when that is a number; an index outside the buffer becomes \<open>0\<close>. The result
  is \<open>recentLogs.slice(startIdx)\<close>, the lines handed to the summarizer.
\<close>

definition firstWord :: "string \<Rightarrow> string" where
  "firstWord q = takeWhile (\<lambda>c. \<not> isWhiteSpace c) q"

definition summarize_startIdx :: "string option \<Rightarrow> cli_state \<Rightarrow> int" where
  "summarize_startIdx args st =
     (let trimmed = (case args of None \<Rightarrow> [] | Some a \<Rightarrow> trim a);
          summaryQuery = (if trimmed = [] then ''a concise summary'' else trimmed);
          w = firstWord summaryQuery
      in if w \<noteq> [] \<and> list_all isDigit w then decimal w else lastCommandStartIdx st)"

definition serial_summarize_lines :: "string option \<Rightarrow> cli_state \<Rightarrow> string list" where
  "serial_summarize_lines args st =
     (let startIdx = summarize_startIdx args st;
          startIdx' = (if startIdx < 0 \<or> startIdx \<ge> int (length (logs_of st)) then 0 else startIdx)
      in slice_from (logs_of st) startIdx')"

subsection \<open>Runs of the command processor\<close>

text \<open>
  What can happen to the module state: a subcommand is entered, the port reports that it
  opened or closed, or a chunk of text arrives from the device. The data handler exists
  once a console has been created.
\<close>

datatype event =
    Connect string int
  | Port_open
  | Port_close
  | Data string
  | Send string
  | Clear
  | Disconnect

definition on_console :: "(SerialConsole \<Rightarrow> SerialConsole) \<Rightarrow> cli_state \<Rightarrow> cli_state" where
  "on_console f st =
     (case serial st of
        None \<Rightarrow> st
      | Some r \<Rightarrow> st\<lparr>consoles := (consoles st)(r := f (consoles st r))\<rparr>)"

fun step :: "event \<Rightarrow> cli_state \<Rightarrow> cli_state" where
  "step (Connect p baud) st = serial_connect p baud st"
| "step Port_open st = on_console on_port_open st"
| "step Port_close st = on_console on_port_close st"
| "step (Data d) st = (if serial st = None then st else on_data d (on_console (emit (Ev_data d)) st))"
| "step (Send args) st = serial_send args st"
| "step Clear st = serial_clear st"
| "step Disconnect st = serial_disconnect st"

definition run :: "event list \<Rightarrow> cli_state" where
  "run evs = fold step evs init_state"

section \<open>The probes that read the log ring\<close>

text \<open>
  Each probe sends a script wrapped in a pair of markers and then polls the ring from a
  \<open>setInterval\<close> callback. A tick of the callback sees the clock and the ring as they are
  at that moment, and either waits for the next tick, settles the promise, or clears the
  interval and leaves the promise unsettled.
\<close>

datatype 'a tick = Wait | Stop | Resolve 'a | Reject string

datatype 'a outcome = Unsettled | Resolved_at int 'a | Rejected_at int string

type_synonym snapshot = "int \<times> string list"

fun poll :: "(snapshot \<Rightarrow> 'a tick) \<Rightarrow> snapshot list \<Rightarrow> 'a outcome" where
  "poll cb [] = Unsettled"
| "poll cb (t # ts) =
     (case cb t of
        Wait \<Rightarrow> poll cb ts
      | Stop \<Rightarrow> Unsettled
      | Resolve v \<Rightarrow> Resolved_at (fst t) v
      | Reject e \<Rightarrow> Rejected_at (fst t) e)"

subsection \<open>The marker id\<close>

text \<open>
  \<open>Math.random().toString(36).slice(2, 8)\<close>. A double in \<open>[0, 1)\<close> is a dyadic rational
  \<open>m / 2^e\<close> with \<open>m < 2^e\<close>, given here as the pair \<open>(m, e)\<close>. \<open>fraction36\<close> is its exact
  expansion in radix 36, which ends because 36 is a multiple of 4. The engine prints
  \<open>0\<close> for zero and otherwise \<open>0.\<close> followed by the shortest run of digits that identifies
  the double. For a value whose exact expansion is short, such as one half, that run is
  the exact expansion, and there \<open>toString36\<close> is what the engine prints. For a value whose
  exact expansion is longer than the engine's run, the engine stops earlier and may round
  its last digit up, so its digits, and with them the id, can differ from those of
  \<open>toString36\<close>; nothing below is stated about such values beyond the bound of six
  characters that \<open>slice(2, 8)\<close> gives for any printed number.
\<close>

definition digit36 :: "nat \<Rightarrow> char" where
  "digit36 d = ''0123456789abcdefghijklmnopqrstuvwxyz'' ! d"

fun fraction36 :: "nat \<Rightarrow> nat \<Rightarrow> string" where
  "fraction36 m 0 = []"
| "fraction36 m (Suc 0) = (if m = 0 then [] else [digit36 (18 * m)])"
| "fraction36 m (Suc (Suc e)) =
     (if m = 0 then [] else digit36 (9 * m div 2 ^ e) # fraction36 (9 * m mod 2 ^ e) e)"

definition toString36 :: "nat \<times> nat \<Rightarrow> string" where
  "toString36 r = (if fst r = 0 then ''0'' else ''0.'' @ fraction36 (fst r) (snd r))"

definition runId :: "nat \<times> nat \<Rightarrow> string" where
  "runId r = slice (toString36 r) 2 8"

subsection \<open>Matching whole lines: device info and driver info\<close>

text \<open>
  \<open>GetDeviceInfoTool.collectViaActiveSerialLogBuffer\<close> and
  \<open>GetDriverInfoTool.scanViaSerialLogBuffer\<close> search the lines after the saved length with
  the same three statements: \<open>findIndex\<close> of the line that trims to the start marker,
  \<open>findIndex\<close> of a later line that trims to the end marker, and the \<open>slice\<close> between.
\<close>

definition lines_between :: "string \<Rightarrow> string \<Rightarrow> string list \<Rightarrow> string list option" where
  "lines_between START END lines =
     (case findIndex (\<lambda>l i. trim l = START) lines of
        None \<Rightarrow> None
      | Some idxStart \<Rightarrow>
          (case findIndex (\<lambda>l i. i > idxStart \<and> trim l = END) lines of
             None \<Rightarrow> None
           | Some idxEnd \<Rightarrow> Some (slice lines (idxStart + 1) idxEnd)))"

definition START_MARK :: "string \<Rightarrow> string" where
  "START_MARK rid = ''__START_'' @ rid @ ''__''"

definition END_MARK :: "string \<Rightarrow> string" where
  "END_MARK rid = ''__END_'' @ rid @ ''__''"

text \<open>
  The poller of the device-info probe; \<open>startLen\<close> and \<open>startTime\<close> were taken when the
  script was sent. The promise resolves with the payload (the \<open>_raw\<close> field beside the
  parsed fields).
\<close>

definition info_tick :: "string \<Rightarrow> nat \<Rightarrow> int \<Rightarrow> snapshot \<Rightarrow> string tick" where
  "info_tick rid startLen startTime snap =
     (let now = fst snap; logs = snd snap
      in if now - startTime > 20000 then Reject ''Timed out waiting for device info''
         else (case lines_between (START_MARK rid) (END_MARK rid) (slice_from logs (int startLen)) of
                 None \<Rightarrow> Wait
               | Some payloadLines \<Rightarrow> Resolve (join payloadLines)))"

definition DRV_START :: "string \<Rightarrow> string" where
  "DRV_START rid = ''__DRV_START_'' @ rid @ ''__''"

definition DRV_END :: "string \<Rightarrow> string" where
  "DRV_END rid = ''__DRV_END_'' @ rid @ ''__''"

record scan_result =
  sysfs :: "string list"
  lspci :: "string list"
  lsusb :: "string list"
  fw :: "string list"
  taint :: string

datatype mode = Mode_none | Mode_sysfs | Mode_pci | Mode_usb | Mode_fw | Mode_taint

definition empty_scan :: scan_result where
  "empty_scan = \<lparr>sysfs = [], lspci = [], lsusb = [], fw = [], taint = ''0''\<rparr>"

text \<open>\<open>raw.replace(/\r$/, '')\<close>.\<close>

definition strip_cr :: "string \<Rightarrow> string" where
  "strip_cr raw = (if raw \<noteq> [] \<and> last raw = CHR 0x0D then butlast raw else raw)"

definition scan_line :: "mode \<times> scan_result \<Rightarrow> string \<Rightarrow> mode \<times> scan_result" where
  "scan_line acc raw =
     (let m = fst acc; r = snd acc; line = strip_cr raw
      in if includes_str line ''---SYSFS---'' then (Mode_sysfs, r)
         else if includes_str line ''---LSPCI---'' then (Mode_pci, r)
         else if includes_str line ''---LSUSB---'' then (Mode_usb, r)
         else if includes_str line ''---FW---'' then (Mode_fw, r)
         else if includes_str line ''---TAINT---'' then (Mode_taint, r)
         else (case m of
                 Mode_sysfs \<Rightarrow> (m, r\<lparr>sysfs := sysfs r @ [line]\<rparr>)
               | Mode_pci \<Rightarrow> (m, r\<lparr>lspci := lspci r @ [line]\<rparr>)
               | Mode_usb \<Rightarrow> (m, r\<lparr>lsusb := lsusb r @ [line]\<rparr>)
               | Mode_fw \<Rightarrow> (m, r\<lparr>fw := fw r @ [line]\<rparr>)
               | Mode_taint \<Rightarrow> (m, r\<lparr>taint := trim (if line = [] then ''0'' else line)\<rparr>)
               | Mode_none \<Rightarrow> (m, r)))"

definition scan_sections :: "string list \<Rightarrow> scan_result" where
  "scan_sections payload = snd (foldl scan_line (Mode_none, empty_scan) payload)"

text \<open>
  The poller of the driver-info probe. Its promise has no \<open>reject\<close>: past the deadline it
  resolves with the sections as they are then, which is before any line was scanned.
\<close>

definition driver_tick :: "string \<Rightarrow> nat \<Rightarrow> int \<Rightarrow> snapshot \<Rightarrow> scan_result tick" where
  "driver_tick rid startLen deadline snap =
     (let now = fst snap; logs = snd snap
      in if now > deadline then Resolve empty_scan
         else (case lines_between (DRV_START rid) (DRV_END rid) (slice_from logs (int startLen)) of
                 None \<Rightarrow> Wait
               | Some payload \<Rightarrow> Resolve (scan_sections payload)))"

subsection \<open>Searching the joined text: device tree and real-time analysis\<close>

text \<open>
  A match lies inside the text, at or after the position the search started from; the
  loops below end because of this.
\<close>

lemma index_of_bound: "index_of s pat = Some i \<Longrightarrow> i + length pat \<le> length s"
proof (induction s arbitrary: i)
  case Nil
  then show ?case by (simp split: if_splits)
next
  case (Cons c cs)
  have sw: "startsWith xs ps \<Longrightarrow> length ps \<le> length xs" for xs ps
    by (induction xs ps rule: startsWith.induct) auto
  show ?case
  proof (cases "startsWith (c # cs) pat")
    case True
    with Cons.prems sw [of "c # cs" pat] show ?thesis by simp
  next
    case False
    with Cons.prems obtain j where "index_of cs pat = Some j" "i = Suc j" by auto
    with Cons.IH show ?thesis by simp
  qed
qed

lemma indexOf_bound:
  "indexOf s pat k = Some i \<Longrightarrow> pat \<noteq> [] \<Longrightarrow> k \<le> i \<and> i + length pat \<le> length s"
proof -
  assume a: "indexOf s pat k = Some i" and ne: "pat \<noteq> []"
  from a obtain j where j: "index_of (drop (min k (length s)) s) pat = Some j"
    and i: "i = min k (length s) + j"
    by (auto simp: indexOf_def Let_def)
  from index_of_bound [OF j] have b: "j + length pat \<le> length s - min k (length s)" by simp
  with ne have "k < length s" by (cases "k < length s") auto
  with b i show ?thesis by auto
qed

definition DT_START :: "string \<Rightarrow> string" where
  "DT_START ident = ''__DT_START_'' @ ident @ ''__''"

definition DT_END :: "string \<Rightarrow> string" where
  "DT_END ident = ''__DT_END_'' @ ident @ ''__''"

text \<open>\<open>/^N\|/m.test(s)\<close>: some line of \<open>s\<close> starts with \<open>N|\<close>.\<close>

fun line_starts :: "bool \<Rightarrow> string \<Rightarrow> bool" where
  "line_starts atStart [] = False"
| "line_starts atStart (c # cs) =
     ((atStart \<and> startsWith (c # cs) ''N|'') \<or> line_starts (c = CHR 0x0A \<or> c = CHR 0x0D) cs)"

definition has_node_line :: "string \<Rightarrow> bool" where
  "has_node_line s = line_starts True s"

text \<open>
  The fallback loop of the device-tree probe: walk the pairs from \<open>scanPos\<close> and keep the
  text of the latest one that holds a node line.
\<close>

function dt_fallback :: "string \<Rightarrow> string \<Rightarrow> nat \<Rightarrow> string \<Rightarrow> string" where
  "dt_fallback ident full scanPos payload =
     (case indexOf full (DT_START ident) scanPos of
        None \<Rightarrow> payload
      | Some s \<Rightarrow>
          (case indexOf full (DT_END ident) (s + length (DT_START ident)) of
             None \<Rightarrow> payload
           | Some e \<Rightarrow>
               let piece = slice full (s + length (DT_START ident)) e
               in dt_fallback ident full (e + length (DT_END ident))
                    (if has_node_line piece then piece else payload)))"
  by pat_completeness auto
termination
proof (relation "measure (\<lambda>(ident, full, scanPos, payload). length full - scanPos)")
  show "wf (measure (\<lambda>(ident, full, scanPos, payload). length full - scanPos))" by simp
next
  fix ident full :: string and scanPos s e :: nat and payload piece :: string
  assume s: "indexOf full (DT_START ident) scanPos = Some s"
    and e: "indexOf full (DT_END ident) (s + length (DT_START ident)) = Some e"
  have pos: "0 < length (DT_START ident)"
    by (simp add: DT_START_def)
  have "scanPos \<le> s" "s + length (DT_START ident) \<le> length full"
    using indexOf_bound [OF s] by (simp_all add: DT_START_def)
  moreover have "s + length (DT_START ident) \<le> e"
    using indexOf_bound [OF e] by (simp add: DT_END_def)
  ultimately have "length full - (e + length (DT_END ident)) < length full - scanPos"
    using pos by arith
  then show "((ident, full, e + length (DT_END ident),
      if has_node_line piece then piece else payload), ident, full, scanPos, payload)
      \<in> measure (\<lambda>(ident, full, scanPos, payload). length full - scanPos)"
    by simp
qed

declare dt_fallback.simps [simp del]

text \<open>
  One look of the device-tree poller at the joined ring. When both markers are present
  the interval is cleared before the pairs are looked for, so a return from there leaves
  the promise unsettled. The promise resolves with the nodes parsed from the payload; the
  payload is what the probe keeps as \<open>lastRawPayload\<close> and what is resolved here.
\<close>

definition dt_extract :: "string \<Rightarrow> string \<Rightarrow> string tick" where
  "dt_extract ident full =
     (if \<not> includes_str full (DT_START ident) \<or> \<not> includes_str full (DT_END ident) then Wait
      else (case indexOf full (DT_START ident) 0 of
              None \<Rightarrow> Stop
            | Some firstStart \<Rightarrow>
                (case indexOf full (DT_END ident) (firstStart + length (DT_START ident)) of
                   None \<Rightarrow> Stop
                 | Some firstEnd \<Rightarrow>
                     let secondStart = indexOf full (DT_START ident) (firstEnd + length (DT_END ident));
                         secondEnd = (case secondStart of
                                        None \<Rightarrow> None
                                      | Some s \<Rightarrow> indexOf full (DT_END ident) (s + length (DT_START ident)))
                     in (case (secondStart, secondEnd) of
                           (Some s, Some e) \<Rightarrow> Resolve (slice full (s + length (DT_START ident)) e)
                         | _ \<Rightarrow> Resolve (dt_fallback ident full firstStart [])))))"

text \<open>
  The poller of the device-tree probe, with the ring an array. Past the deadline it
  rejects and, having no \<open>return\<close> there, still looks at the ring; the promise is settled
  by the rejection, whatever that look then finds.
\<close>

definition dt_tick :: "string \<Rightarrow> int \<Rightarrow> snapshot \<Rightarrow> string tick" where
  "dt_tick ident deadline snap =
     (let now = fst snap; logs = snd snap
      in if now > deadline then Reject ''Timeout waiting for device tree''
         else dt_extract ident (join logs))"

text \<open>\<open>s.split(sep)\<close>; an empty separator splits into the code units.\<close>

function split :: "string \<Rightarrow> string \<Rightarrow> string list" where
  "split s sep =
     (if sep = [] then map (\<lambda>c. [c]) s
      else (case index_of s sep of
              None \<Rightarrow> [s]
            | Some i \<Rightarrow> take i s # split (drop (i + length sep) s) sep))"
  by pat_completeness auto
termination
proof (relation "measure (\<lambda>(s, sep). length s)")
  show "wf (measure (\<lambda>(s, sep). length s))" by simp
next
  fix s sep :: string and i :: nat
  assume "sep \<noteq> []" and "index_of s sep = Some i"
  then have "i + length sep \<le> length s" "0 < length sep"
    using index_of_bound by auto
  then have "length s - (i + length sep) < length s"
    by arith
  then show "((drop (i + length sep) s, sep), s, sep) \<in> measure (\<lambda>(s, sep). length s)"
    by simp
qed

declare split.simps [simp del]

definition RT_START :: "string \<Rightarrow> string" where
  "RT_START ident = ''__RT_START_'' @ ident @ ''__''"

definition RT_END :: "string \<Rightarrow> string" where
  "RT_END ident = ''__RT_END_'' @ ident @ ''__''"

text \<open>
  The payload the real-time probe isolates: what follows the second start marker, up to
  the first end marker in that piece.
\<close>

definition rt_isolate :: "string \<Rightarrow> string \<Rightarrow> string option" where
  "rt_isolate ident full =
     (let startPieces = split full (RT_START ident)
      in if length startPieces < 3 then None
         else let afterSecondStart = startPieces ! 2
              in (case index_of afterSecondStart (RT_END ident) of
                    None \<Rightarrow> None
                  | Some secondEndIdx \<Rightarrow> Some (slice afterSecondStart 0 secondEndIdx)))"

text \<open>
  What the real-time probe resolves with: the second analysis block of the payload, or
  the first, or the trimmed payload when it holds no block.
\<close>

definition pickAnalysisSlice :: "string \<Rightarrow> string" where
  "pickAnalysisSlice raw =
     (let beginTag = ''===== RT_ANALYSIS_BEGIN''; endTag = ''===== RT_ANALYSIS_END''
      in (case indexOf raw beginTag 0 of
            None \<Rightarrow> trim raw
          | Some firstBegin \<Rightarrow>
              (case indexOf raw endTag (firstBegin + length beginTag) of
                 None \<Rightarrow> trim raw
               | Some firstEnd \<Rightarrow>
                   let secondBegin = indexOf raw beginTag (firstEnd + length endTag);
                       secondEnd = (case secondBegin of
                                      None \<Rightarrow> None
                                    | Some b \<Rightarrow> indexOf raw endTag (b + length beginTag))
                   in (case (secondBegin, secondEnd) of
                         (Some b, Some e) \<Rightarrow> trim (slice raw b (e + length endTag))
                       | _ \<Rightarrow> trim (slice raw firstBegin (firstEnd + length endTag))))))"

definition rt_tick :: "string \<Rightarrow> int \<Rightarrow> snapshot \<Rightarrow> string tick" where
  "rt_tick ident deadline snap =
     (let now = fst snap; logs = snd snap
      in if now > deadline then Reject ''Timeout waiting for RT analysis output''
         else (case rt_isolate ident (join logs) of
                 None \<Rightarrow> Wait
               | Some payload \<Rightarrow> Resolve (pickAnalysisSlice payload)))"

subsection \<open>The timer\<close>

text \<open>
  A timer that keeps its interval: every tick comes after the one before, and no more
  than \<open>pollMs\<close> after it (the first no more than \<open>pollMs\<close> after \<open>prev\<close>).
\<close>

fun paced :: "int \<Rightarrow> int \<Rightarrow> snapshot list \<Rightarrow> bool" where
  "paced pollMs prev [] = True"
| "paced pollMs prev (t # ts) = (prev < fst t \<and> fst t \<le> prev + pollMs \<and> paced pollMs (fst t) ts)"

text \<open>Ticks exactly \<open>pollMs\<close> apart that all see the same ring.\<close>

definition steady :: "int \<Rightarrow> int \<Rightarrow> nat \<Rightarrow> string list \<Rightarrow> snapshot list" where
  "steady start pollMs n logs = map (\<lambda>k. (start + (int k + 1) * pollMs, logs)) [0..<n]"

text \<open>The specification's outcome \<open>Timeout\<close>: the promise was rejected.\<close>

definition timed_out :: "'a outcome \<Rightarrow> bool" where
  "timed_out out = (case out of Rejected_at at e \<Rightarrow> True | _ \<Rightarrow> False)"

subsection \<open>Marker pairs, as the specification reads them\<close>

text \<open>\<open>pat\<close> occurs in \<open>s\<close> at position \<open>i\<close>.\<close>

definition occurs_at :: "string \<Rightarrow> string \<Rightarrow> nat \<Rightarrow> bool" where
  "occurs_at s pat i \<longleftrightarrow> i + length pat \<le> length s \<and> take (length pat) (drop i s) = pat"

text \<open>
  The specification scans the captured text for the complete pairs: a start marker, the
  first end marker after it, and so on from behind that end marker. A pair is given by
  the positions of its two markers.
\<close>

function marker_pairs :: "string \<Rightarrow> string \<Rightarrow> string \<Rightarrow> nat \<Rightarrow> (nat \<times> nat) list" where
  "marker_pairs full S E pos =
     (if S = [] \<or> E = [] then []
      else (case indexOf full S pos of
              None \<Rightarrow> []
            | Some s \<Rightarrow>
                (case indexOf full E (s + length S) of
                   None \<Rightarrow> []
                 | Some e \<Rightarrow> (s, e) # marker_pairs full S E (e + length E))))"
  by pat_completeness auto
termination
proof (relation "measure (\<lambda>(full, S, E, pos). length full - pos)")
  show "wf (measure (\<lambda>(full, S, E, pos). length full - pos))" by simp
next
  fix full S E :: string and pos s e :: nat
  assume ne: "\<not> (S = [] \<or> E = [])"
    and s: "indexOf full S pos = Some s"
    and e: "indexOf full E (s + length S) = Some e"
  have "pos \<le> s" "s + length S \<le> length full" "0 < length S"
    using indexOf_bound [OF s] ne by simp_all
  moreover have "s + length S \<le> e"
    using indexOf_bound [OF e] ne by simp
  ultimately have "length full - (e + length E) < length full - pos"
    by arith
  then show "((full, S, E, e + length E), full, S, E, pos)
      \<in> measure (\<lambda>(full, S, E, pos). length full - pos)"
    by simp
qed

declare marker_pairs.simps [simp del]

text \<open>The text between the markers of a pair.\<close>

definition between :: "string \<Rightarrow> string \<Rightarrow> nat \<times> nat \<Rightarrow> string" where
  "between full S p = slice full (fst p + length S) (snd p)"

text \<open>
  The specification's policy: the last complete pair, which is the only pair when there is
  one.
\<close>

definition spec_select :: "string \<Rightarrow> string \<Rightarrow> string \<Rightarrow> string option" where
  "spec_select full S E =
     (case marker_pairs full S E 0 of [] \<Rightarrow> None | p # ps \<Rightarrow> Some (between full S (last (p # ps))))"

section \<open>Example states and the specification's wording\<close>

text \<open>A session in which the device has printed five lines.\<close>

definition five_lines :: cli_state where
  "five_lines = run [Connect ''/dev/ttyUSB0'' 115200, Port_open, Data ''a\<newline>b\<newline>c\<newline>d\<newline>e\<newline>'']"

text \<open>A session in which the device has printed two lines.\<close>

definition connected_state :: cli_state where
  "connected_state = run [Connect ''/dev/ttyUSB0'' 115200, Port_open, Data ''a\<newline>b\<newline>'']"

text \<open>
  A ring of three lines, full, at the moment a command has been sent: the saved index is
  the length of the ring.
\<close>

definition fenced_state :: cli_state where
  "fenced_state =
     serial_send ''ls'' (fold (push_line 3) [''l1'', ''l2'', ''l3'']
       (serial_connect ''/dev/ttyUSB0'' 115200 init_state))"

text \<open>A console whose port has opened.\<close>

definition open_console :: SerialConsole where
  "open_console = on_port_open (console_connect ''/dev/ttyUSB0'' 115200 new_SerialConsole)"

text \<open>
  The payload the specification describes for \<open>send\<close>: the text as it is, with a line
  break added only when the text does not end with one.
\<close>

definition spec_send_payload :: "string \<Rightarrow> string" where
  "spec_send_payload t = (if t \<noteq> [] \<and> last t = CHR 0x0A then t else t @ [CHR 0x0A])"

text \<open>A session whose port has been asked for and has not opened yet.\<close>

definition opening_state :: cli_state where
  "opening_state = run [Connect ''/dev/ttyUSB0'' 115200]"

text \<open>\<open>/serial disconnect\<close> typed before the port of the session has opened.\<close>

definition early_disconnect :: "event list" where
  "early_disconnect = [Connect ''/dev/ttyUSB0'' 115200, Disconnect]"

text \<open>
  The specification's ``the transport is released'': the session holds no port that is
  not closed.
\<close>

definition transport_released :: "cli_state \<Rightarrow> bool" where
  "transport_released st \<longleftrightarrow>
     (case serial st of
        None \<Rightarrow> True
      | Some r \<Rightarrow> (case port (consoles st r) of None \<Rightarrow> True | Some p \<Rightarrow> closed p))"

text \<open>
  The ring after a device-info script was sent to a console that echoes its input: the
  echoed script lines, then the output of the script between its markers.
\<close>

definition echoed_info :: "string list" where
  "echoed_info =
     [''# cat > /tmp/diag.sh'', ''> echo __START_k3x9qz__'', ''> uname -m'', ''> echo __END_k3x9qz__'',
      ''# sh /tmp/diag.sh'', ''__START_k3x9qz__'', ''Foo'', ''arm64'', ''__END_k3x9qz__'', ''# '']"

text \<open>
  The ring after a driver-info script was sent to a device that printed the start marker
  and then nothing more.
\<close>

definition quiet_logs :: "string list" where
  "quiet_logs = [''# sh /tmp/drvscan.sh'', ''__DRV_START_k3x9qz__'']"

text \<open>
  The joined ring after a device-tree script whose lines were echoed twice, once by the
  terminal and once by the shell reading the here-document, and then ran.
\<close>

definition three_pairs :: string where
  "three_pairs =
     join [''$ echo __DT_START_k3x9qz__'', ''$ find /proc/device-tree'', ''$ echo __DT_END_k3x9qz__'',
           ''> echo __DT_START_k3x9qz__'', ''> find /proc/device-tree'', ''> echo __DT_END_k3x9qz__'',
           ''__DT_START_k3x9qz__'', ''N|/|model'', ''__DT_END_k3x9qz__'', ''# '']"

text \<open>The joined ring after a real-time script that ran without being echoed.\<close>

definition one_pair :: string where
  "one_pair = join [''__RT_START_k3x9qz__'', ''up 2 days'', ''__RT_END_k3x9qz__'', ''# '']"

text \<open>The joined ring after a real-time script that was echoed once and then ran.\<close>

definition echoed_rt :: string where
  "echoed_rt =
     join [''> echo __RT_START_k3x9qz__'', ''> uptime'', ''> echo __RT_END_k3x9qz__'',
           ''__RT_START_k3x9qz__'', ''up 2 days'', ''__RT_END_k3x9qz__'', ''# '']"

text \<open>The joined ring after a device-tree script that ran without being echoed.\<close>

definition one_dt_pair :: string where
  "one_dt_pair = join [''__DT_START_k3x9qz__'', ''N|/|model'', ''__DT_END_k3x9qz__'', ''# '']"

text \<open>A ring in which the marker lines of one id stand twice.\<close>

definition two_exact_pairs :: "string list" where
  "two_exact_pairs =
     [''__START_k3x9qz__'', ''old'', ''__END_k3x9qz__'', ''__START_k3x9qz__'', ''new'', ''__END_k3x9qz__'']"

text \<open>
  The ring after a driver-info script ran on a device with one USB device and a tainted
  kernel; the first line was in the ring before the script was sent.
\<close>

definition driver_ring :: "string list" where
  "driver_ring =
     [''old line'', ''# sh /tmp/drvscan.sh'', ''__DRV_START_k3x9qz__'', ''---SYSFS---'',
      ''D|/sys/bus/usb/devices/usb1|usb|usb'', ''---TAINT---'', ''4096'', ''__DRV_END_k3x9qz__'', ''# '']"

section \<open>Properties of the log ring\<close>

lemma logs_push_line:
  "logs_of (push_line cap l st) = drop (length (logs_of st) + 1 - cap) (logs_of st @ [l])"
  by (simp add: push_line_def logs_of_def Let_def)

lemma recentLogs_push_line [simp]: "recentLogs (push_line cap l st) = recentLogs st"
  by (simp add: push_line_def Let_def)

lemma length_push_line:
  "length (logs_of st) \<le> cap \<Longrightarrow> length (logs_of (push_line cap l st)) \<le> cap"
  by (simp add: logs_push_line)

lemma logs_fold_push:
  "length (logs_of st) \<le> cap \<Longrightarrow>
   logs_of (fold (push_line cap) ls st) = drop (length (logs_of st) + length ls - cap) (logs_of st @ ls)"
proof (induction ls arbitrary: st)
  case Nil
  then show ?case by simp
next
  case (Cons l ls)
  let ?n = "length (logs_of st)"
  let ?b = "?n + 1 - cap"
  let ?st1 = "push_line cap l st"
  have len1: "length (logs_of ?st1) = ?n + 1 - ?b"
    by (simp add: logs_push_line)
  have le1: "length (logs_of ?st1) \<le> cap"
    using Cons.prems by (rule length_push_line)
  have "drop ?b ((logs_of st @ [l]) @ ls) = drop ?b (logs_of st @ [l]) @ ls"
    by (subst drop_append) simp
  then have cat: "logs_of ?st1 @ ls = drop ?b (logs_of st @ l # ls)"
    by (simp add: logs_push_line)
  have "logs_of (fold (push_line cap) (l # ls) st) = logs_of (fold (push_line cap) ls ?st1)"
    by simp
  also have "\<dots> = drop (length (logs_of ?st1) + length ls - cap) (logs_of ?st1 @ ls)"
    using le1 by (rule Cons.IH)
  also have "\<dots> = drop (length (logs_of ?st1) + length ls - cap + ?b) (logs_of st @ l # ls)"
    unfolding cat by (simp only: drop_drop)
  also have "length (logs_of ?st1) + length ls - cap + ?b = ?n + length (l # ls) - cap"
    using Cons.prems len1 by auto
  finally show ?case .
qed

lemma idx_push_line:
  "lastCommandStartIdx (push_line cap l st) =
     (if length (logs_of st) + 1 \<le> cap then lastCommandStartIdx st
      else max 0 (lastCommandStartIdx st - int (length (logs_of st) + 1 - cap)))"
  by (auto simp add: push_line_def logs_of_def Let_def)

text \<open>
  What every run maintains: the ring is within its capacity, the saved index is not
  negative, and the global name still denotes the ring.
\<close>

definition ring_inv :: "cli_state \<Rightarrow> bool" where
  "ring_inv st \<longleftrightarrow> length (logs_of st) \<le> LOG_RING_SIZE \<and> 0 \<le> lastCommandStartIdx st
     \<and> GEMINI_SERIAL_LOGS st = recentLogs st"

lemma inv_push: "ring_inv st \<Longrightarrow> ring_inv (push_line LOG_RING_SIZE l st)"
  by (auto simp: ring_inv_def push_line_def logs_of_def Let_def)

lemma inv_partial: "ring_inv st \<Longrightarrow> ring_inv (st\<lparr>partialSerialLine := p\<rparr>)"
  by (simp add: ring_inv_def logs_of_def)

lemma inv_hint: "ring_inv st \<Longrightarrow> ring_inv (st\<lparr>serialHintShown := b\<rparr>)"
  by (simp add: ring_inv_def logs_of_def)

lemma inv_assemble: "ring_inv st \<Longrightarrow> ring_inv (assemble_lines st)"
proof (induction st rule: assemble_lines.induct)
  case (1 st)
  show ?case
  proof (cases "search_newline (partialSerialLine st)")
    case None
    then show ?thesis using "1.prems" by (subst assemble_lines.simps) simp
  next
    case (Some i)
    show ?thesis
      apply (subst assemble_lines.simps)
      apply (simp only: Some option.case Let_def)
      apply (rule "1.IH"[OF Some refl refl refl refl])
      using "1.prems" by (simp add: inv_push inv_partial)
  qed
qed

lemma inv_on_data: "ring_inv st \<Longrightarrow> ring_inv (on_data d st)"
  unfolding on_data_def by (intro inv_assemble inv_partial inv_hint)

lemma inv_on_console: "ring_inv st \<Longrightarrow> ring_inv (on_console f st)"
  by (simp add: ring_inv_def logs_of_def on_console_def split: option.splits)

lemma inv_step: "ring_inv st \<Longrightarrow> ring_inv (step e st)"
proof (cases e)
  case (Data d)
  assume "ring_inv st"
  then show ?thesis using Data by (simp add: inv_on_data inv_on_console)
qed (auto simp: ring_inv_def logs_of_def serial_connect_def serial_disconnect_def serial_clear_def
         serial_send_def on_console_def Let_def split: option.splits)

lemma inv_fold: "ring_inv st \<Longrightarrow> ring_inv (fold step evs st)"
  by (induction evs arbitrary: st) (simp_all add: inv_step)

lemma inv_run: "ring_inv (run evs)"
  unfolding run_def by (rule inv_fold) (simp add: ring_inv_def init_state_def logs_of_def)

section \<open>Properties of the subcommands\<close>

lemma isDigit_not_ws: "isDigit c \<Longrightarrow> \<not> isWhiteSpace c \<and> c \<noteq> CHR ''-'' \<and> c \<noteq> CHR ''+''"
  unfolding isDigit_def isWhiteSpace_def by auto

lemma parseInt_digits:
  assumes "ds \<noteq> []" "list_all isDigit ds"
  shows "parseInt ds = Some (decimal ds)"
proof -
  obtain c cs where ds: "ds = c # cs" using assms(1) by (cases ds) auto
  have d: "isDigit c" using assms(2) ds by simp
  note n = isDigit_not_ws [OF d]
  have tw: "takeWhile isDigit ds = ds"
    using assms(2) by (simp add: list_all_iff)
  have "trimStart ds = ds" using n ds by (simp add: trimStart_def)
  then show ?thesis
    using n tw ds assms(1) by (simp add: parseInt_def Let_def)
qed

lemma slice_from_neg: "0 < n \<Longrightarrow> slice_from xs (- n) = drop (length xs - nat n) xs"
  by (auto simp: slice_from_def Let_def max_def intro: arg_cong[where f="\<lambda>k. drop k xs"])

lemma logs_five_lines: "logs_of five_lines = [''a'', ''b'', ''c'', ''d'', ''e'']"
  unfolding five_lines_def run_def
  apply (simp add: on_data_def init_state_def serial_connect_def on_console_def Let_def)
  apply (subst assemble_lines.simps, simp add: slice_def trimEnd_def isWhiteSpace_def push_line_def LOG_RING_SIZE_def Let_def)+
  apply (simp add: logs_of_def)
  done

lemma connected_state_eval:
  "serial connected_state = Some 1
   \<and> port (consoles connected_state 1)
       = Some \<lparr>path = ''/dev/ttyUSB0'', baudRate = 115200, written = [], closed = False\<rparr>
   \<and> isOpen (consoles connected_state 1)
   \<and> GEMINI_ACTIVE_SERIAL connected_state = Some 1
   \<and> GEMINI_SERIAL_PORT connected_state = Some ''/dev/ttyUSB0''
   \<and> logs_of connected_state = [''a'', ''b'']"
  unfolding connected_state_def run_def
  apply (simp add: on_data_def init_state_def serial_connect_def on_console_def Let_def
      console_connect_def new_SerialConsole_def on_port_open_def emit_def)
  apply (subst assemble_lines.simps, simp add: slice_def trimEnd_def isWhiteSpace_def push_line_def LOG_RING_SIZE_def Let_def)+
  apply (simp add: logs_of_def)
  done

lemma opening_state_eval:
  "serial opening_state = Some 1
   \<and> consoles opening_state 1
       = \<lparr>port = Some \<lparr>path = ''/dev/ttyUSB0'', baudRate = 115200, written = [], closed = False\<rparr>,
          isOpen = False, emitted = []\<rparr>
   \<and> GEMINI_ACTIVE_SERIAL opening_state = Some 1"
  unfolding opening_state_def run_def
  by (simp add: init_state_def serial_connect_def Let_def console_connect_def new_SerialConsole_def)

lemma early_disconnect_eval:
  "serial (run early_disconnect) = Some 1"
  "consoles (run early_disconnect) 1
       = \<lparr>port = Some \<lparr>path = ''/dev/ttyUSB0'', baudRate = 115200, written = [], closed = False\<rparr>,
          isOpen = False, emitted = []\<rparr>"
  "GEMINI_ACTIVE_SERIAL (run early_disconnect) = None"
  "GEMINI_SERIAL_PORT (run early_disconnect) = None"
  unfolding early_disconnect_def run_def
  by (simp_all add: init_state_def serial_connect_def serial_disconnect_def Let_def
      console_connect_def console_disconnect_def new_SerialConsole_def)

lemma late_traffic_eval:
  "logs_of (run (early_disconnect @ [Port_open, Data ''late\<newline>''])) = [''late'']"
  "transmitted (consoles (run (early_disconnect @ [Port_open, Send ''reboot''])) 1) = [''reboot\<newline>'']"
  unfolding early_disconnect_def run_def
   apply (simp add: on_data_def init_state_def serial_connect_def serial_disconnect_def on_console_def Let_def
      console_connect_def console_disconnect_def new_SerialConsole_def on_port_open_def emit_def)
   apply (subst assemble_lines.simps, simp add: slice_def trimEnd_def isWhiteSpace_def push_line_def LOG_RING_SIZE_def Let_def)+
   apply (simp add: logs_of_def)
  apply (simp add: init_state_def serial_connect_def serial_disconnect_def on_console_def Let_def
      console_connect_def console_disconnect_def new_SerialConsole_def on_port_open_def emit_def
      serial_send_def console_send_def port_write_def transmitted_def logs_of_def)
  done

section \<open>Properties of the line search\<close>

lemma findIndex_from_Some:
  "findIndex_from n p xs = Some k \<longleftrightarrow>
     n \<le> k \<and> k - n < length xs \<and> p (xs ! (k - n)) k \<and> (\<forall>j. n \<le> j \<and> j < k \<longrightarrow> \<not> p (xs ! (j - n)) j)"
proof (induction xs arbitrary: n)
  case Nil
  then show ?case by simp
next
  case (Cons x xs)
  show ?case
  proof (cases "p x n")
    case True
    have "k = n" if "n \<le> k" "\<forall>j. n \<le> j \<and> j < k \<longrightarrow> \<not> p ((x # xs) ! (j - n)) j"
    proof (rule ccontr)
      assume "k \<noteq> n"
      with that(1) have "n < k" by simp
      with that(2) have "\<not> p ((x # xs) ! (n - n)) n" by blast
      with True show False by simp
    qed
    with True show ?thesis by auto
  next
    case False
    have step: "findIndex_from n p (x # xs) = findIndex_from (Suc n) p xs"
      using False by simp
    show ?thesis
      unfolding step Cons.IH
    proof (intro iffI conjI; (elim conjE)?)
      assume a: "Suc n \<le> k" "k - Suc n < length xs" "p (xs ! (k - Suc n)) k"
        "\<forall>j. Suc n \<le> j \<and> j < k \<longrightarrow> \<not> p (xs ! (j - Suc n)) j"
      show "n \<le> k" using a(1) by simp
      show "k - n < length (x # xs)" using a(1,2) by auto
      have kn: "k - n = Suc (k - Suc n)" using a(1) by simp
      show "p ((x # xs) ! (k - n)) k" unfolding kn using a(3) by simp
      show "\<forall>j. n \<le> j \<and> j < k \<longrightarrow> \<not> p ((x # xs) ! (j - n)) j"
      proof (intro allI impI)
        fix j assume j: "n \<le> j \<and> j < k"
        show "\<not> p ((x # xs) ! (j - n)) j"
        proof (cases "j = n")
          case True
          then show ?thesis using False by simp
        next
          case False
          then have "Suc n \<le> j" using j by simp
          then have jn: "j - n = Suc (j - Suc n)" by simp
          show ?thesis unfolding jn using a(4) \<open>Suc n \<le> j\<close> j by simp
        qed
      qed
    next
      assume a: "n \<le> k" "k - n < length (x # xs)" "p ((x # xs) ! (k - n)) k"
        "\<forall>j. n \<le> j \<and> j < k \<longrightarrow> \<not> p ((x # xs) ! (j - n)) j"
      have "k \<noteq> n" using a(3) False by auto
      then show sk: "Suc n \<le> k" using a(1) by simp
      then have kn: "k - n = Suc (k - Suc n)" by simp
      show "k - Suc n < length xs" using a(2) kn by simp
      show "p (xs ! (k - Suc n)) k" using a(3) unfolding kn by simp
      show "\<forall>j. Suc n \<le> j \<and> j < k \<longrightarrow> \<not> p (xs ! (j - Suc n)) j"
      proof (intro allI impI)
        fix j assume j: "Suc n \<le> j \<and> j < k"
        then have jn: "j - n = Suc (j - Suc n)" by arith
        have "n \<le> j \<and> j < k" using j by simp
        with a(4) have "\<not> p ((x # xs) ! (j - n)) j" by blast
        then show "\<not> p (xs ! (j - Suc n)) j" unfolding jn by simp
      qed
    qed
  qed
qed

lemma findIndex_Some:
  "findIndex p xs = Some k \<longleftrightarrow> k < length xs \<and> p (xs ! k) k \<and> (\<forall>j<k. \<not> p (xs ! j) j)"
  unfolding findIndex_def findIndex_from_Some by simp

lemma findIndex_from_None:
  "findIndex_from n p xs = None \<longleftrightarrow> (\<forall>j<length xs. \<not> p (xs ! j) (n + j))"
proof (induction xs arbitrary: n)
  case Nil
  then show ?case by simp
next
  case (Cons x xs)
  show ?case
  proof (cases "p x n")
    case True
    then show ?thesis by auto
  next
    case False
    have "(\<forall>j<length (x # xs). \<not> p ((x # xs) ! j) (n + j)) \<longleftrightarrow> (\<forall>j<length xs. \<not> p (xs ! j) (Suc n + j))"
      using False by (auto simp: less_Suc_eq_0_disj)
    then show ?thesis using False Cons.IH by simp
  qed
qed

lemma findIndex_None:
  "findIndex p xs = None \<longleftrightarrow> (\<forall>j<length xs. \<not> p (xs ! j) j)"
  unfolding findIndex_def findIndex_from_None by simp

lemma lines_between_Some:
  "lines_between S E ls = Some payload \<longleftrightarrow>
     (\<exists>i j. i < j \<and> j < length ls \<and> trim (ls ! i) = S \<and> trim (ls ! j) = E
        \<and> (\<forall>k<i. trim (ls ! k) \<noteq> S) \<and> (\<forall>k. i < k \<and> k < j \<longrightarrow> trim (ls ! k) \<noteq> E)
        \<and> payload = slice ls (i + 1) j)"
proof
  assume "lines_between S E ls = Some payload"
  then obtain i j where i: "findIndex (\<lambda>l i. trim l = S) ls = Some i"
    and j: "findIndex (\<lambda>l k. k > i \<and> trim l = E) ls = Some j"
    and p: "payload = slice ls (i + 1) j"
    by (auto simp: lines_between_def split: option.splits)
  from i have i': "i < length ls" "trim (ls ! i) = S" "\<forall>k<i. trim (ls ! k) \<noteq> S"
    by (simp_all add: findIndex_Some)
  from j have j': "j < length ls" "i < j" "trim (ls ! j) = E" "\<forall>k<j. \<not> (i < k \<and> trim (ls ! k) = E)"
    by (simp_all add: findIndex_Some)
  show "\<exists>i j. i < j \<and> j < length ls \<and> trim (ls ! i) = S \<and> trim (ls ! j) = E
        \<and> (\<forall>k<i. trim (ls ! k) \<noteq> S) \<and> (\<forall>k. i < k \<and> k < j \<longrightarrow> trim (ls ! k) \<noteq> E)
        \<and> payload = slice ls (i + 1) j"
    using i' j' p by blast
next
  assume "\<exists>i j. i < j \<and> j < length ls \<and> trim (ls ! i) = S \<and> trim (ls ! j) = E
        \<and> (\<forall>k<i. trim (ls ! k) \<noteq> S) \<and> (\<forall>k. i < k \<and> k < j \<longrightarrow> trim (ls ! k) \<noteq> E)
        \<and> payload = slice ls (i + 1) j"
  then obtain i j where a: "i < j" "j < length ls" "trim (ls ! i) = S" "trim (ls ! j) = E"
    "\<forall>k<i. trim (ls ! k) \<noteq> S" "\<forall>k. i < k \<and> k < j \<longrightarrow> trim (ls ! k) \<noteq> E"
    "payload = slice ls (i + 1) j" by blast
  have i: "findIndex (\<lambda>l i. trim l = S) ls = Some i"
    using a by (simp add: findIndex_Some)
  have j: "findIndex (\<lambda>l k. k > i \<and> trim l = E) ls = Some j"
    using a by (auto simp add: findIndex_Some)
  show "lines_between S E ls = Some payload"
    using i j a(7) by (simp add: lines_between_def)
qed

lemma lines_between_no_end:
  assumes "\<forall>l\<in>set ls. trim l \<noteq> E"
  shows "lines_between S E ls = None"
proof -
  have "findIndex (\<lambda>l k. k > i \<and> trim l = E) ls = None" for i
    using assms by (simp add: findIndex_None)
  then show ?thesis by (simp add: lines_between_def split: option.splits)
qed

lemma lines_between_no_start:
  assumes "\<forall>l\<in>set ls. trim l \<noteq> S"
  shows "lines_between S E ls = None"
proof -
  have "findIndex (\<lambda>l k. trim l = S) ls = None"
    using assms by (simp add: findIndex_None)
  then show ?thesis by (simp add: lines_between_def)
qed

lemma slice_from_int: "slice_from xs (int n) = drop n xs"
  by (simp add: slice_from_def Let_def min_def)

lemma length_trim_ge:
  assumes "\<not> isWhiteSpace x" "\<not> isWhiteSpace y"
  shows "length mid + 2 \<le> length (trim (a @ x # mid @ y # b))"
proof -
  have 1: "trimStart (a @ x # mid @ y # b) = dropWhile isWhiteSpace a @ x # mid @ y # b"
    using assms(1) by (simp add: trimStart_def dropWhile_append)
  have "rev (dropWhile isWhiteSpace a @ x # mid @ y # b)
      = rev b @ y # (rev mid @ x # rev (dropWhile isWhiteSpace a))"
    by simp
  then have "dropWhile isWhiteSpace (rev (dropWhile isWhiteSpace a @ x # mid @ y # b))
      = dropWhile isWhiteSpace (rev b) @ y # (rev mid @ x # rev (dropWhile isWhiteSpace a))"
    using assms(2) by (simp only: dropWhile_append dropWhile.simps if_False split: if_splits) simp
  then show ?thesis
    unfolding trim_def 1 trimEnd_def by simp
qed

lemma slice_nth_upt: "j \<le> length ls \<Longrightarrow> slice ls i j = map (\<lambda>k. ls ! k) [i..<j]"
  by (auto simp: slice_def list_eq_iff_nth_eq)

lemma trim_embedded_ne:
  assumes "\<not> isWhiteSpace x" "\<not> isWhiteSpace y"
  shows "trim (a @ x # g @ (m @ [y]) @ b) \<noteq> m @ [y]"
proof -
  have "a @ x # g @ (m @ [y]) @ b = a @ x # (g @ m) @ y # b" by simp
  then have "length (g @ m) + 2 \<le> length (trim (a @ x # g @ (m @ [y]) @ b))"
    using length_trim_ge [OF assms, of "g @ m" a b] by simp
  then show ?thesis by auto
qed

lemma echo_line_ne:
  assumes "m = m' @ ''_''"
  shows "trim (pre @ ''echo '' @ m @ post) \<noteq> m"
proof -
  have "trim (pre @ CHR ''e'' # ''cho '' @ (m' @ [CHR ''_'']) @ post) \<noteq> m' @ [CHR ''_'']"
    by (rule trim_embedded_ne) (simp_all add: isWhiteSpace_def)
  then show ?thesis using assms by simp
qed

lemma echoed_info_eval:
  "lines_between (START_MARK ''k3x9qz'') (END_MARK ''k3x9qz'') echoed_info = Some [''Foo'', ''arm64'']"
  by code_simp

lemma lines_between_None_iff:
  "lines_between S E ls = None \<longleftrightarrow>
     \<not> (\<exists>i j. i < j \<and> j < length ls \<and> trim (ls ! i) = S \<and> trim (ls ! j) = E)"
proof
  assume n: "lines_between S E ls = None"
  show "\<not> (\<exists>i j. i < j \<and> j < length ls \<and> trim (ls ! i) = S \<and> trim (ls ! j) = E)"
  proof
    assume "\<exists>i j. i < j \<and> j < length ls \<and> trim (ls ! i) = S \<and> trim (ls ! j) = E"
    then obtain i j where ij: "i < j" "j < length ls" "trim (ls ! i) = S" "trim (ls ! j) = E"
      by blast
    have il: "i < length ls" using ij(1,2) by simp
    have "\<not> (\<forall>k<length ls. trim (ls ! k) \<noteq> S)"
      using il ij(3) by blast
    then have "findIndex (\<lambda>l k. trim l = S) ls \<noteq> None"
      by (simp add: findIndex_None)
    then obtain i0 where i0: "findIndex (\<lambda>l k. trim l = S) ls = Some i0" by auto
    then have min: "\<forall>k<i0. trim (ls ! k) \<noteq> S" by (simp add: findIndex_Some)
    have "i0 \<le> i"
    proof (rule ccontr)
      assume "\<not> i0 \<le> i"
      then have "i < i0" by simp
      with min ij(3) show False by blast
    qed
    then have "i0 < j" using ij(1) by simp
    then have "\<not> (\<forall>k<length ls. \<not> (i0 < k \<and> trim (ls ! k) = E))"
      using ij(2,4) by blast
    then have "findIndex (\<lambda>l k. k > i0 \<and> trim l = E) ls \<noteq> None"
      by (simp add: findIndex_None)
    then obtain j0 where "findIndex (\<lambda>l k. k > i0 \<and> trim l = E) ls = Some j0" by auto
    with i0 have "lines_between S E ls \<noteq> None"
      by (simp add: lines_between_def)
    with n show False by simp
  qed
next
  assume a: "\<not> (\<exists>i j. i < j \<and> j < length ls \<and> trim (ls ! i) = S \<and> trim (ls ! j) = E)"
  show "lines_between S E ls = None"
  proof (rule ccontr)
    assume "lines_between S E ls \<noteq> None"
    then obtain p where "lines_between S E ls = Some p" by auto
    then have "\<exists>i j. i < j \<and> j < length ls \<and> trim (ls ! i) = S \<and> trim (ls ! j) = E"
      unfolding lines_between_Some by blast
    with a show False by simp
  qed
qed

lemma lines_between_Some_nth:
  "lines_between S E ls = Some payload \<longleftrightarrow>
      (\<exists>i j. i < j \<and> j < length ls \<and> trim (ls ! i) = S \<and> trim (ls ! j) = E
         \<and> (\<forall>k<i. trim (ls ! k) \<noteq> S) \<and> (\<forall>k. i < k \<and> k < j \<longrightarrow> trim (ls ! k) \<noteq> E)
         \<and> payload = map (\<lambda>k. ls ! k) [i + 1..<j])"
proof -
  have "payload = slice ls (i + 1) j \<longleftrightarrow> payload = map (\<lambda>k. ls ! k) [i + 1..<j]"
    if "j < length ls" for i j
    using that by (simp add: slice_nth_upt)
  then show ?thesis
    unfolding lines_between_Some by blast
qed

lemma echoed_info_split:
  "drop 0 echoed_info =
     [''# cat > /tmp/diag.sh'', ''> echo __START_k3x9qz__'', ''> uname -m'', ''> echo __END_k3x9qz__'',
      ''# sh /tmp/diag.sh''] @ ''__START_k3x9qz__'' # [''Foo'', ''arm64''] @ ''__END_k3x9qz__'' # [''# '']"
  by (simp add: echoed_info_def)

lemma echoed_info_marks:
  "trim ''__START_k3x9qz__'' = START_MARK ''k3x9qz''"
  "trim ''__END_k3x9qz__'' = END_MARK ''k3x9qz''"
  "\<forall>l\<in>set [''# cat > /tmp/diag.sh'', ''> echo __START_k3x9qz__'', ''> uname -m'',
      ''> echo __END_k3x9qz__'', ''# sh /tmp/diag.sh'']. trim l \<noteq> START_MARK ''k3x9qz''"
  "\<forall>l\<in>set [''Foo'', ''arm64'']. trim l \<noteq> END_MARK ''k3x9qz''"
  by code_simp+

lemma driver_ring_split:
  "drop 1 driver_ring =
     [''# sh /tmp/drvscan.sh''] @ ''__DRV_START_k3x9qz__'' #
       [''---SYSFS---'', ''D|/sys/bus/usb/devices/usb1|usb|usb'', ''---TAINT---'', ''4096'']
       @ ''__DRV_END_k3x9qz__'' # [''# '']"
  by (simp add: driver_ring_def)

lemma driver_ring_marks:
  "trim ''__DRV_START_k3x9qz__'' = DRV_START ''k3x9qz''"
  "trim ''__DRV_END_k3x9qz__'' = DRV_END ''k3x9qz''"
  "\<forall>l\<in>set [''# sh /tmp/drvscan.sh'']. trim l \<noteq> DRV_START ''k3x9qz''"
  "\<forall>l\<in>set [''---SYSFS---'', ''D|/sys/bus/usb/devices/usb1|usb|usb'', ''---TAINT---'', ''4096''].
      trim l \<noteq> DRV_END ''k3x9qz''"
  by code_simp+

lemma driver_ring_sections:
  "scan_sections [''---SYSFS---'', ''D|/sys/bus/usb/devices/usb1|usb|usb'', ''---TAINT---'', ''4096'']
     = \<lparr>sysfs = [''D|/sys/bus/usb/devices/usb1|usb|usb''], lspci = [], lsusb = [], fw = [],
        taint = ''4096''\<rparr>"
  by code_simp

lemma join_foo: "join [''Foo'', ''arm64''] = ''Foo\<newline>arm64''"
  by code_simp

lemma waiting_rings:
  "lines_between (START_MARK ''k3x9qz'') (END_MARK ''k3x9qz'') (drop 0 (take 8 echoed_info)) = None"
  "lines_between (DRV_START ''k3x9qz'') (DRV_END ''k3x9qz'') (drop 0 quiet_logs) = None"
  by code_simp+

section \<open>Properties of the pollers\<close>

lemma lines_between_drop_no_end:
  "\<forall>l\<in>set logs. trim l \<noteq> E \<Longrightarrow> lines_between S E (slice_from logs (int n)) = None"
  by (rule lines_between_no_end) (auto simp: slice_from_int dest: in_set_dropD)

lemma info_times_out:
  assumes "paced p prev ticks" "prev \<le> startTime + 20000"
    "\<exists>t\<in>set ticks. startTime + 20000 < fst t"
    "\<forall>t\<in>set ticks. \<forall>l\<in>set (snd t). trim l \<noteq> END_MARK rid"
  shows "\<exists>at. poll (info_tick rid startLen startTime) ticks
           = Rejected_at at ''Timed out waiting for device info''
         \<and> startTime + 20000 < at \<and> at \<le> startTime + 20000 + p"
  using assms
proof (induction ticks arbitrary: prev)
  case Nil
  then show ?case by simp
next
  case (Cons t ts)
  show ?case
  proof (cases "startTime + 20000 < fst t")
    case True
    then have "info_tick rid startLen startTime t = Reject ''Timed out waiting for device info''"
      by (simp add: info_tick_def Let_def)
    then show ?thesis using True Cons.prems(1,2) by auto
  next
    case False
    have "lines_between (START_MARK rid) (END_MARK rid) (slice_from (snd t) (int startLen)) = None"
      using Cons.prems(4) by (intro lines_between_drop_no_end) simp
    then have w: "info_tick rid startLen startTime t = Wait"
      using False by (simp add: info_tick_def Let_def)
    have "\<exists>at. poll (info_tick rid startLen startTime) ts
           = Rejected_at at ''Timed out waiting for device info''
         \<and> startTime + 20000 < at \<and> at \<le> startTime + 20000 + p"
    proof (rule Cons.IH)
      show "paced p (fst t) ts" using Cons.prems(1) by simp
      show "fst t \<le> startTime + 20000" using False by simp
      show "\<exists>t\<in>set ts. startTime + 20000 < fst t" using Cons.prems(3) False by auto
      show "\<forall>t\<in>set ts. \<forall>l\<in>set (snd t). trim l \<noteq> END_MARK rid" using Cons.prems(4) by simp
    qed
    then show ?thesis using w by simp
  qed
qed

lemma info_never_resolves:
  assumes "\<forall>t\<in>set ticks. \<forall>l\<in>set (snd t). trim l \<noteq> END_MARK rid"
  shows "poll (info_tick rid startLen startTime) ticks \<noteq> Resolved_at at v"
  using assms
proof (induction ticks)
  case Nil
  then show ?case by simp
next
  case (Cons t ts)
  have "lines_between (START_MARK rid) (END_MARK rid) (slice_from (snd t) (int startLen)) = None"
    using Cons.prems by (intro lines_between_drop_no_end) simp
  then have "info_tick rid startLen startTime t = Wait
      \<or> info_tick rid startLen startTime t = Reject ''Timed out waiting for device info''"
    by (simp add: info_tick_def Let_def)
  then show ?case using Cons by auto
qed

lemma driver_gives_up:
  assumes "paced p prev ticks" "prev \<le> deadline"
    "\<exists>t\<in>set ticks. deadline < fst t"
    "\<forall>t\<in>set ticks. \<forall>l\<in>set (snd t). trim l \<noteq> DRV_END rid"
  shows "\<exists>at. poll (driver_tick rid startLen deadline) ticks = Resolved_at at empty_scan
         \<and> deadline < at \<and> at \<le> deadline + p"
  using assms
proof (induction ticks arbitrary: prev)
  case Nil
  then show ?case by simp
next
  case (Cons t ts)
  show ?case
  proof (cases "deadline < fst t")
    case True
    then have "driver_tick rid startLen deadline t = Resolve empty_scan"
      by (simp add: driver_tick_def Let_def)
    then show ?thesis using True Cons.prems(1,2) by auto
  next
    case False
    have "lines_between (DRV_START rid) (DRV_END rid) (slice_from (snd t) (int startLen)) = None"
      using Cons.prems(4) by (intro lines_between_drop_no_end) simp
    then have w: "driver_tick rid startLen deadline t = Wait"
      using False by (simp add: driver_tick_def Let_def)
    have "\<exists>at. poll (driver_tick rid startLen deadline) ts = Resolved_at at empty_scan
         \<and> deadline < at \<and> at \<le> deadline + p"
    proof (rule Cons.IH)
      show "paced p (fst t) ts" using Cons.prems(1) by simp
      show "fst t \<le> deadline" using False by simp
      show "\<exists>t\<in>set ts. deadline < fst t" using Cons.prems(3) False by auto
      show "\<forall>t\<in>set ts. \<forall>l\<in>set (snd t). trim l \<noteq> DRV_END rid" using Cons.prems(4) by simp
    qed
    then show ?thesis using w by simp
  qed
qed

lemma steady_Suc:
  "steady start p (Suc n) logs = (start + p, logs) # steady (start + p) p n logs"
proof -
  have "[0..<Suc n] = 0 # map Suc [0..<n]"
    by (simp add: upt_conv_Cons map_Suc_upt del: upt_Suc)
  then show ?thesis
    by (simp add: steady_def comp_def algebra_simps del: upt_Suc)
qed

lemma paced_steady: "0 < p \<Longrightarrow> paced p start (steady start p n logs)"
proof (induction n arbitrary: start)
  case 0
  then show ?case by (simp add: steady_def)
next
  case (Suc n)
  then show ?case by (simp add: steady_Suc)
qed

lemma snd_steady: "t \<in> set (steady start p n logs) \<Longrightarrow> snd t = logs"
  by (auto simp: steady_def)

lemma last_steady: "k < n \<Longrightarrow> (start + (int k + 1) * p, logs) \<in> set (steady start p n logs)"
  by (auto simp: steady_def)

lemma quiet_logs_no_end:
  "\<forall>l\<in>set quiet_logs. trim l \<noteq> END_MARK ''k3x9qz''"
  "\<forall>l\<in>set quiet_logs. trim l \<noteq> DRV_END ''k3x9qz''"
  by code_simp+

lemma quiet_polls:
  "poll (info_tick ''k3x9qz'' 0 0) (steady 0 150 210 quiet_logs)
     = Rejected_at 20100 ''Timed out waiting for device info''"
  "poll (driver_tick ''k3x9qz'' 0 30000) (steady 0 150 210 quiet_logs) = Resolved_at 30150 empty_scan"
  by code_simp+

section \<open>Properties of the substring search\<close>

lemma startsWith_iff: "startsWith s p \<longleftrightarrow> length p \<le> length s \<and> take (length p) s = p"
  by (induction s p rule: startsWith.induct) auto

lemma occurs_at_0: "occurs_at s p 0 \<longleftrightarrow> startsWith s p"
  by (simp add: occurs_at_def startsWith_iff)

lemma occurs_at_Suc: "occurs_at (c # cs) p (Suc i) \<longleftrightarrow> occurs_at cs p i"
  by (simp add: occurs_at_def)

lemma occurs_at_Nil: "occurs_at [] p i \<longleftrightarrow> i = 0 \<and> p = []"
  by (auto simp: occurs_at_def)

lemma index_of_Some_iff:
  "index_of s p = Some i \<longleftrightarrow> occurs_at s p i \<and> (\<forall>j<i. \<not> occurs_at s p j)"
proof (induction s arbitrary: i)
  case Nil
  then show ?case by (auto simp: occurs_at_Nil)
next
  case (Cons c cs)
  show ?case
  proof (cases "startsWith (c # cs) p")
    case True
    then have o: "occurs_at (c # cs) p 0" by (simp add: occurs_at_0)
    have "i = 0" if "\<forall>j<i. \<not> occurs_at (c # cs) p j"
      using that o by (cases i) auto
    then show ?thesis using True o by auto
  next
    case False
    then have no: "\<not> occurs_at (c # cs) p 0" by (simp add: occurs_at_0)
    show ?thesis
    proof (cases i)
      case 0
      then show ?thesis using False no by auto
    next
      case (Suc i')
      have "(\<forall>j<Suc i'. \<not> occurs_at (c # cs) p j) \<longleftrightarrow> (\<forall>j<i'. \<not> occurs_at cs p j)"
        using no by (auto simp: less_Suc_eq_0_disj occurs_at_Suc)
      then show ?thesis
        using False Suc Cons.IH [of i'] by (auto simp: occurs_at_Suc)
    qed
  qed
qed

lemma index_of_None_iff: "index_of s p = None \<longleftrightarrow> (\<forall>j. \<not> occurs_at s p j)"
proof (induction s)
  case Nil
  then show ?case by (auto simp: occurs_at_Nil)
next
  case (Cons c cs)
  have "(\<forall>j. \<not> occurs_at (c # cs) p j) \<longleftrightarrow> \<not> occurs_at (c # cs) p 0 \<and> (\<forall>j. \<not> occurs_at cs p j)"
    by (metis occurs_at_Suc not0_implies_Suc)
  then show ?case using Cons.IH by (auto simp: occurs_at_0)
qed

lemma occurs_at_drop: "k \<le> length s \<Longrightarrow> occurs_at (drop k s) p i \<longleftrightarrow> occurs_at s p (k + i)"
  by (auto simp: occurs_at_def add.commute)

lemma occurs_at_take: "occurs_at (take n s) p i \<longleftrightarrow> occurs_at s p i \<and> i + length p \<le> n"
  by (auto simp: occurs_at_def take_drop min_def)

lemma indexOf_Some_iff:
  assumes "p \<noteq> []"
  shows "indexOf s p k = Some i \<longleftrightarrow>
     k \<le> i \<and> occurs_at s p i \<and> (\<forall>j. k \<le> j \<and> j < i \<longrightarrow> \<not> occurs_at s p j)"
proof (cases "k \<le> length s")
  case True
  have "indexOf s p k = Some i \<longleftrightarrow> k \<le> i \<and> index_of (drop k s) p = Some (i - k)"
    using True by (auto simp: indexOf_def Let_def min_def)
  also have "\<dots> \<longleftrightarrow> k \<le> i \<and> occurs_at s p i \<and> (\<forall>j<i - k. \<not> occurs_at s p (k + j))"
    using True by (auto simp: index_of_Some_iff occurs_at_drop)
  also have "(\<forall>j<i - k. \<not> occurs_at s p (k + j)) \<longleftrightarrow> (\<forall>j. k \<le> j \<and> j < i \<longrightarrow> \<not> occurs_at s p j)"
  proof
    assume a: "\<forall>j<i - k. \<not> occurs_at s p (k + j)"
    show "\<forall>j. k \<le> j \<and> j < i \<longrightarrow> \<not> occurs_at s p j"
    proof (intro allI impI)
      fix j assume "k \<le> j \<and> j < i"
      then have "j - k < i - k" "k + (j - k) = j" by auto
      with a show "\<not> occurs_at s p j" by metis
    qed
  next
    assume a: "\<forall>j. k \<le> j \<and> j < i \<longrightarrow> \<not> occurs_at s p j"
    show "\<forall>j<i - k. \<not> occurs_at s p (k + j)"
      using a by auto
  qed
  finally show ?thesis .
next
  case False
  then have "indexOf s p k = None"
    using assms by (simp add: indexOf_def Let_def min_def)
  moreover have "\<not> occurs_at s p i" if "k \<le> i"
    using that False assms by (auto simp: occurs_at_def)
  ultimately show ?thesis by auto
qed

lemma indexOf_None_iff:
  assumes "p \<noteq> []"
  shows "indexOf s p k = None \<longleftrightarrow> (\<forall>j\<ge>k. \<not> occurs_at s p j)"
proof (cases "k \<le> length s")
  case True
  have "indexOf s p k = None \<longleftrightarrow> index_of (drop k s) p = None"
    using True by (simp add: indexOf_def Let_def min_def)
  also have "\<dots> \<longleftrightarrow> (\<forall>j. \<not> occurs_at s p (k + j))"
    using True by (simp add: index_of_None_iff occurs_at_drop)
  also have "\<dots> \<longleftrightarrow> (\<forall>j\<ge>k. \<not> occurs_at s p j)"
    by (metis le_add1 le_Suc_ex)
  finally show ?thesis .
next
  case False
  then have "indexOf s p k = None"
    using assms by (simp add: indexOf_def Let_def min_def)
  moreover have "\<not> occurs_at s p i" if "k \<le> i" for i
    using that False assms by (auto simp: occurs_at_def)
  ultimately show ?thesis by auto
qed

lemma marker_pairs_Cons:
  assumes "marker_pairs full S E pos = p # ps"
  shows "S \<noteq> [] \<and> E \<noteq> [] \<and> indexOf full S pos = Some (fst p)
     \<and> indexOf full E (fst p + length S) = Some (snd p)
     \<and> ps = marker_pairs full S E (snd p + length E)"
  using assms by (subst (asm) marker_pairs.simps) (auto split: if_splits option.splits)

lemma marker_pairs_Nil:
  assumes "marker_pairs full S E pos = []" "S \<noteq> []" "E \<noteq> []"
  shows "indexOf full S pos = None
     \<or> (\<exists>s. indexOf full S pos = Some s \<and> indexOf full E (s + length S) = None)"
  using assms by (subst (asm) marker_pairs.simps) (auto split: if_splits option.splits)

lemma indexOf_includes:
  assumes "p \<noteq> []" "indexOf s p k = Some i"
  shows "includes_str s p"
  using assms by (auto simp: includes_str_def indexOf_Some_iff index_of_None_iff)

lemma indexOf_again:
  assumes "p \<noteq> []" "indexOf s p k = Some i"
  shows "indexOf s p i = Some i"
  using assms by (simp add: indexOf_Some_iff)

lemma DT_markers_ne [simp]: "DT_START ident \<noteq> []" "DT_END ident \<noteq> []"
  by (simp_all add: DT_START_def DT_END_def)

lemma RT_markers_ne [simp]: "RT_START ident \<noteq> []" "RT_END ident \<noteq> []"
  by (simp_all add: RT_START_def RT_END_def)

lemma dt_second_pair:
  assumes "marker_pairs full (DT_START ident) (DT_END ident) 0 = p1 # p2 # others"
  shows "dt_extract ident full = Resolve (between full (DT_START ident) p2)"
proof -
  note a = marker_pairs_Cons [OF assms]
  then have "marker_pairs full (DT_START ident) (DT_END ident) (snd p1 + length (DT_END ident)) = p2 # others"
    by simp
  note b = marker_pairs_Cons [OF this]
  have i1: "includes_str full (DT_START ident)"
    using a by (intro indexOf_includes [of _ _ 0 "fst p1"]) simp_all
  have i2: "includes_str full (DT_END ident)"
    using a by (intro indexOf_includes [of _ _ "fst p1 + length (DT_START ident)" "snd p1"]) simp_all
  show ?thesis
    using a b i1 i2 by (simp add: dt_extract_def between_def)
qed

lemma dt_single_pair:
  assumes "marker_pairs full (DT_START ident) (DT_END ident) 0 = [p1]"
  shows "dt_extract ident full =
     Resolve (if has_node_line (between full (DT_START ident) p1)
              then between full (DT_START ident) p1 else [])"
proof -
  let ?S = "DT_START ident" and ?E = "DT_END ident"
  let ?pay = "if has_node_line (between full ?S p1) then between full ?S p1 else []"
  note a = marker_pairs_Cons [OF assms]
  then have n: "marker_pairs full ?S ?E (snd p1 + length ?E) = []" by simp
  have i1: "includes_str full ?S"
    using a by (intro indexOf_includes [of _ _ 0 "fst p1"]) simp_all
  have i2: "includes_str full ?E"
    using a by (intro indexOf_includes [of _ _ "fst p1 + length ?S" "snd p1"]) simp_all
  have again: "indexOf full ?S (fst p1) = Some (fst p1)"
    using a by (intro indexOf_again [of _ _ 0]) simp_all
  from marker_pairs_Nil [OF n] have
    c: "indexOf full ?S (snd p1 + length ?E) = None
      \<or> (\<exists>s. indexOf full ?S (snd p1 + length ?E) = Some s \<and> indexOf full ?E (s + length ?S) = None)"
    by simp
  have stop: "dt_fallback ident full (snd p1 + length ?E) ?pay = ?pay"
    using c by (subst dt_fallback.simps) auto
  have "dt_fallback ident full (fst p1) [] = dt_fallback ident full (snd p1 + length ?E) ?pay"
    using a again by (subst dt_fallback.simps) (simp add: between_def Let_def)
  then have fb: "dt_fallback ident full (fst p1) [] = ?pay"
    using stop by simp
  show ?thesis
    using a c i1 i2 fb by (auto simp: dt_extract_def)
qed

lemma split_Cons:
  "sep \<noteq> [] \<Longrightarrow> index_of s sep = Some i \<Longrightarrow>
     split s sep = take i s # split (drop (i + length sep) s) sep"
  by (subst split.simps) simp

lemma split_None: "sep \<noteq> [] \<Longrightarrow> index_of s sep = None \<Longrightarrow> split s sep = [s]"
  by (subst split.simps) simp

lemma split_hd:
  assumes "sep \<noteq> []"
  shows "\<exists>others. split s sep = (case index_of s sep of None \<Rightarrow> s | Some i \<Rightarrow> take i s) # others"
  using assms by (cases "index_of s sep") (simp_all add: split_None split_Cons)

lemma indexOf_index_of:
  assumes "p \<noteq> []" "indexOf s p k = Some i"
  shows "index_of (drop k s) p = Some (i - k) \<and> k \<le> i \<and> k \<le> length s"
proof -
  from indexOf_bound [OF assms(2,1)] have "k \<le> i" "i + length p \<le> length s" by simp_all
  then have k: "k \<le> length s" by simp
  then show ?thesis using assms(2) \<open>k \<le> i\<close> by (auto simp: indexOf_def Let_def min_def)
qed

lemma rt_second_pair:
  assumes pairs: "marker_pairs full (RT_START ident) (RT_END ident) 0 = p1 # p2 # others"
    and h1: "\<forall>j. fst p1 + length (RT_START ident) \<le> j \<and> j < fst p2 \<longrightarrow> \<not> occurs_at full (RT_START ident) j"
    and h2: "\<forall>j. fst p2 + length (RT_START ident) \<le> j \<and> j < snd p2 + length (RT_END ident)
               \<longrightarrow> \<not> occurs_at full (RT_START ident) j"
  shows "rt_isolate ident full = Some (between full (RT_START ident) p2)"
proof -
  let ?S = "RT_START ident" and ?E = "RT_END ident"
  let ?s1 = "fst p1" and ?e1 = "snd p1" and ?s2 = "fst p2" and ?e2 = "snd p2"
  note a = marker_pairs_Cons [OF pairs]
  then have "marker_pairs full ?S ?E (?e1 + length ?E) = p2 # others" by simp
  note b = marker_pairs_Cons [OF this]
  have s1: "indexOf full ?S 0 = Some ?s1" and e1: "indexOf full ?E (?s1 + length ?S) = Some ?e1"
    and s2: "indexOf full ?S (?e1 + length ?E) = Some ?s2" and e2: "indexOf full ?E (?s2 + length ?S) = Some ?e2"
    using a b by simp_all
  have le1: "?s1 + length ?S \<le> ?e1" using indexOf_bound [OF e1] by simp
  have le2: "?e1 + length ?E \<le> ?s2" "?s2 + length ?S \<le> length full"
    using indexOf_bound [OF s2] by simp_all
  have le3: "?s2 + length ?S \<le> ?e2" "?e2 + length ?E \<le> length full"
    using indexOf_bound [OF e2] by simp_all
  have first: "index_of full ?S = Some ?s1"
    using indexOf_index_of [OF _ s1] by simp
  have "indexOf full ?S (?s1 + length ?S) = Some ?s2"
    using s2 h1 le1 le2 by (simp add: indexOf_Some_iff)
  from indexOf_index_of [OF _ this]
  have second: "index_of (drop (?s1 + length ?S) full) ?S = Some (?s2 - (?s1 + length ?S))"
    and le4: "?s1 + length ?S \<le> ?s2" by simp_all
  let ?rest = "drop (?s2 + length ?S) full"
  have dd: "drop (?s2 - (?s1 + length ?S) + length ?S) (drop (?s1 + length ?S) full) = ?rest"
    using le4 by (simp add: add.commute)
  obtain piece others' where sp: "split ?rest ?S = piece # others'"
    and piece: "piece = (case index_of ?rest ?S of None \<Rightarrow> ?rest | Some i \<Rightarrow> take i ?rest)"
    using split_hd [of ?S ?rest] by auto
  have w1: "split full ?S = take ?s1 full # split (drop (?s1 + length ?S) full) ?S"
    by (rule split_Cons [OF _ first]) simp
  have w2: "split (drop (?s1 + length ?S) full) ?S
      = take (?s2 - (?s1 + length ?S)) (drop (?s1 + length ?S) full) # split ?rest ?S"
    using split_Cons [OF _ second] unfolding dd by simp
  have whole: "split full ?S = take ?s1 full
      # take (?s2 - (?s1 + length ?S)) (drop (?s1 + length ?S) full) # piece # others'"
    unfolding w1 w2 sp ..
  let ?d = "?e2 - (?s2 + length ?S)"
  have endr: "index_of ?rest ?E = Some ?d"
    using indexOf_index_of [OF _ e2] by simp
  have fit: "?d + length ?E \<le> i" if i: "index_of ?rest ?S = Some i" for i
  proof -
    from i have "occurs_at ?rest ?S i" by (simp add: index_of_Some_iff)
    then have "occurs_at full ?S (?s2 + length ?S + i)"
      using le2 by (simp add: occurs_at_drop)
    with h2 have "\<not> (?s2 + length ?S + i < ?e2 + length ?E)" by auto
    then show ?thesis using le3 by arith
  qed
  have found: "index_of piece ?E = Some ?d"
  proof (cases "index_of ?rest ?S")
    case None
    then show ?thesis using piece endr by simp
  next
    case (Some i)
    then have p: "piece = take i ?rest" using piece by simp
    show ?thesis
      unfolding p using endr fit [OF Some] by (auto simp: index_of_Some_iff occurs_at_take)
  qed
  have cut: "take ?d piece = take ?d ?rest"
  proof (cases "index_of ?rest ?S")
    case None
    then show ?thesis using piece by simp
  next
    case (Some i)
    then show ?thesis using piece fit [OF Some] by (simp add: min_def)
  qed
  show ?thesis
    using found cut by (simp add: rt_isolate_def whole Let_def slice_def between_def)
qed

lemma rt_single_start:
  assumes "\<forall>j k. occurs_at full (RT_START ident) j \<and> occurs_at full (RT_START ident) k \<longrightarrow> j = k"
  shows "rt_isolate ident full = None"
proof -
  let ?S = "RT_START ident"
  have "length (split full ?S) < 3"
  proof (cases "index_of full ?S")
    case None
    then show ?thesis by (simp add: split_None)
  next
    case (Some s1)
    then have o1: "occurs_at full ?S s1" by (simp add: index_of_Some_iff)
    then have le: "s1 + length ?S \<le> length full" by (simp add: occurs_at_def)
    have "index_of (drop (s1 + length ?S) full) ?S = None"
    proof (rule ccontr)
      assume "index_of (drop (s1 + length ?S) full) ?S \<noteq> None"
      then obtain i where "index_of (drop (s1 + length ?S) full) ?S = Some i" by auto
      then have "occurs_at (drop (s1 + length ?S) full) ?S i" by (simp add: index_of_Some_iff)
      then have "occurs_at full ?S (s1 + length ?S + i)" using le by (simp add: occurs_at_drop)
      with assms o1 have "s1 = s1 + length ?S + i" by blast
      then show False by (simp add: RT_START_def)
    qed
    then show ?thesis using Some by (simp add: split_Cons split_None)
  qed
  then show ?thesis by (simp add: rt_isolate_def Let_def)
qed

lemma first_exact_pair:
  assumes "trim s = S" "trim e = E" "\<forall>l\<in>set pre. trim l \<noteq> S" "\<forall>l\<in>set mid. trim l \<noteq> E"
  shows "lines_between S E (pre @ s # mid @ e # post) = Some mid"
proof -
  let ?ls = "pre @ s # mid @ e # post"
  let ?i = "length pre" and ?j = "length pre + 1 + length mid"
  have "?i < ?j" "?j < length ?ls" by simp_all
  moreover have "trim (?ls ! ?i) = S" using assms(1) by simp
  moreover have "trim (?ls ! ?j) = E"
    using assms(2) by (simp add: nth_append)
  moreover have "\<forall>k<?i. trim (?ls ! k) \<noteq> S"
    using assms(3) by (simp add: nth_append)
  moreover have "\<forall>k. ?i < k \<and> k < ?j \<longrightarrow> trim (?ls ! k) \<noteq> E"
  proof (intro allI impI)
    fix k assume k: "?i < k \<and> k < ?j"
    define m where "m = k - Suc ?i"
    have m: "k = ?i + Suc m" "m < length mid"
      using k unfolding m_def by arith+
    have "?ls ! k = mid ! m"
      unfolding m(1) using m(2) by (simp add: nth_append)
    then show "trim (?ls ! k) \<noteq> E" using assms(4) m(2) by simp
  qed
  moreover have "mid = slice ?ls (?i + 1) ?j"
    by (simp add: slice_def)
  ultimately show ?thesis
    unfolding lines_between_Some by blast
qed

lemma all_range: "(\<forall>j. a \<le> j \<and> j < b \<longrightarrow> P j) \<longleftrightarrow> list_all P [a..<b]"
  by (auto simp: list_all_iff)

lemma example_pairs:
  "marker_pairs three_pairs (DT_START ''k3x9qz'') (DT_END ''k3x9qz'') 0 = [(7, 59), (84, 136), (154, 184)]"
  "marker_pairs one_dt_pair (DT_START ''k3x9qz'') (DT_END ''k3x9qz'') 0 = [(0, 30)]"
  "marker_pairs echoed_rt (RT_START ''k3x9qz'') (RT_END ''k3x9qz'') 0 = [(7, 43), (61, 91)]"
  "marker_pairs one_pair (RT_START ''k3x9qz'') (RT_END ''k3x9qz'') 0 = [(0, 30)]"
  by code_simp+

lemma example_texts:
  "between three_pairs (DT_START ''k3x9qz'') (84, 136) = ''\<newline>> find /proc/device-tree\<newline>> echo ''"
  "between three_pairs (DT_START ''k3x9qz'') (154, 184) = ''\<newline>N|/|model\<newline>''"
  "between one_dt_pair (DT_START ''k3x9qz'') (0, 30) = ''\<newline>N|/|model\<newline>''"
  "between echoed_rt (RT_START ''k3x9qz'') (61, 91) = ''\<newline>up 2 days\<newline>''"
  "between one_pair (RT_START ''k3x9qz'') (0, 30) = ''\<newline>up 2 days\<newline>''"
  "has_node_line ''\<newline>N|/|model\<newline>''"
  by code_simp+

lemma echoed_rt_clean:
  "\<forall>j. fst (7::nat, 43::nat) + length (RT_START ''k3x9qz'') \<le> j \<and> j < fst (61::nat, 91::nat)
      \<longrightarrow> \<not> occurs_at echoed_rt (RT_START ''k3x9qz'') j"
  "\<forall>j. fst (61::nat, 91::nat) + length (RT_START ''k3x9qz'') \<le> j
        \<and> j < snd (61::nat, 91::nat) + length (RT_END ''k3x9qz'')
      \<longrightarrow> \<not> occurs_at echoed_rt (RT_START ''k3x9qz'') j"
  unfolding all_range by code_simp+

lemma one_pair_single_start:
  "\<forall>j k. occurs_at one_pair (RT_START ''k3x9qz'') j \<and> occurs_at one_pair (RT_START ''k3x9qz'') k \<longrightarrow> j = k"
proof -
  have len: "length one_pair = 50" "length (RT_START ''k3x9qz'') = 19"
    by (simp_all add: one_pair_def RT_START_def)
  have "list_all (\<lambda>j. occurs_at one_pair (RT_START ''k3x9qz'') j \<longrightarrow> j = 0) [0..<32]"
    by code_simp
  then have small: "\<forall>j. 0 \<le> j \<and> j < 32 \<longrightarrow> (occurs_at one_pair (RT_START ''k3x9qz'') j \<longrightarrow> j = 0)"
    unfolding all_range .
  have "j = 0" if "occurs_at one_pair (RT_START ''k3x9qz'') j" for j
  proof -
    from that have "j < 32" by (simp add: occurs_at_def len)
    with small that show ?thesis by simp
  qed
  then show ?thesis by metis
qed

lemma two_exact_pairs_hyps:
  "trim ''__START_k3x9qz__'' = START_MARK ''k3x9qz''"
  "trim ''__END_k3x9qz__'' = END_MARK ''k3x9qz''"
  "\<forall>l\<in>set [''old'']. trim l \<noteq> END_MARK ''k3x9qz''"
  by code_simp+

section \<open>Properties of one poll of the line-matching probes\<close>

lemma info_tick_resolves:
  assumes "now - startTime \<le> 20000" "drop startLen logs = pre @ s # mid @ e # post"
    "trim s = START_MARK rid" "trim e = END_MARK rid"
    "\<forall>l\<in>set pre. trim l \<noteq> START_MARK rid" "\<forall>l\<in>set mid. trim l \<noteq> END_MARK rid"
  shows "info_tick rid startLen startTime (now, logs) = Resolve (join mid)"
proof -
  have "lines_between (START_MARK rid) (END_MARK rid) (drop startLen logs) = Some mid"
    unfolding assms(2) using assms(3-6) by (intro first_exact_pair)
  then show ?thesis using assms(1) by (simp add: info_tick_def slice_from_int Let_def)
qed

lemma driver_tick_resolves:
  assumes "now \<le> deadline" "drop startLen logs = pre @ s # mid @ e # post"
    "trim s = DRV_START rid" "trim e = DRV_END rid"
    "\<forall>l\<in>set pre. trim l \<noteq> DRV_START rid" "\<forall>l\<in>set mid. trim l \<noteq> DRV_END rid"
  shows "driver_tick rid startLen deadline (now, logs) = Resolve (scan_sections mid)"
proof -
  have "lines_between (DRV_START rid) (DRV_END rid) (drop startLen logs) = Some mid"
    unfolding assms(2) using assms(3-6) by (intro first_exact_pair)
  then show ?thesis using assms(1) by (simp add: driver_tick_def slice_from_int Let_def)
qed

section \<open>The claims about the log ring\<close>

text \<open>
  Claim C3. The ring holds at most its capacity of lines: pushing a line then evicting
  leaves the array with the excess \<open>length - capacity\<close> lines removed from its head in one
  \<open>splice\<close>; a ring within its capacity stays within it under any number of pushes;
  after \<open>capacity + k\<close> pushes it holds exactly the last \<open>capacity\<close> pushed lines, in the
  order they were pushed; and in every run of the command processor the ring of
  \<open>LOG_RING_SIZE = 2000\<close> lines is within its capacity.
\<close>

theorem ring_buffer_keeps_last_lines:
  "logs_of (push_line cap l st) = drop (length (logs_of st) + 1 - cap) (logs_of st @ [l])
   \<and> (length (logs_of st) \<le> cap \<longrightarrow> length (logs_of (fold (push_line cap) ls st)) \<le> cap)
   \<and> (length (logs_of st) \<le> cap \<and> length ls = cap + k \<longrightarrow>
        logs_of (fold (push_line cap) ls st) = drop k ls
        \<and> length (logs_of (fold (push_line cap) ls st)) = cap)
   \<and> length (logs_of (run evs)) \<le> LOG_RING_SIZE"
proof (intro conjI impI)
  show "logs_of (push_line cap l st) = drop (length (logs_of st) + 1 - cap) (logs_of st @ [l])"
    by (rule logs_push_line)
  show "length (logs_of (fold (push_line cap) ls st)) \<le> cap" if "length (logs_of st) \<le> cap"
    using that by (simp add: logs_fold_push)
  show "logs_of (fold (push_line cap) ls st) = drop k ls"
    if "length (logs_of st) \<le> cap \<and> length ls = cap + k"
    using that by (simp add: logs_fold_push)
  then show "length (logs_of (fold (push_line cap) ls st)) = cap"
    if "length (logs_of st) \<le> cap \<and> length ls = cap + k"
    using that by simp
  show "length (logs_of (run evs)) \<le> LOG_RING_SIZE"
    using inv_run [of evs] by (simp add: ring_inv_def)
qed

theorem ring_buffer_keeps_last_lines_witness:
  "length (logs_of init_state) \<le> 3
   \<and> length [''l1'', ''l2'', ''l3'', ''l4'', ''l5''] = 3 + 2
   \<and> logs_of (fold (push_line 3) [''l1'', ''l2'', ''l3'', ''l4'', ''l5''] init_state)
       = [''l3'', ''l4'', ''l5'']
   \<and> logs_of (push_line 3 ''l4'' (fold (push_line 3) [''l1'', ''l2'', ''l3''] init_state))
       = [''l2'', ''l3'', ''l4'']"
  using ring_buffer_keeps_last_lines [of 3 "''l4''" "fold (push_line 3) [''l1'', ''l2'', ''l3''] init_state"
      "[''l1'', ''l2'', ''l3'', ''l4'', ''l5'']" 2 "[]"]
    ring_buffer_keeps_last_lines [of 3 "''l4''" init_state "[''l1'', ''l2'', ''l3'', ''l4'', ''l5'']" 2 "[]"]
  by (simp add: init_state_def logs_of_def push_line_def)

text \<open>
  Claim C4. When a push evicts \<open>N\<close> lines from the head of the ring, the saved
  command-start index becomes \<open>max 0 (index - N)\<close>, and is left alone when nothing is
  evicted; so an index that is not negative stays so, and it is never negative in any
  run. \<open>/serial summarize\<close>, slicing from a start index that is at or beyond the length of
  the ring (the saved index, or the one given as its argument), takes the whole ring.
\<close>

theorem fence_follows_eviction:
  "logs_of (push_line cap l st) = drop (length (logs_of st) + 1 - cap) (logs_of st @ [l])
   \<and> lastCommandStartIdx (push_line cap l st) =
       (if length (logs_of st) + 1 - cap = 0 then lastCommandStartIdx st
        else max 0 (lastCommandStartIdx st - int (length (logs_of st) + 1 - cap)))
   \<and> (0 \<le> lastCommandStartIdx st \<longrightarrow> 0 \<le> lastCommandStartIdx (push_line cap l st))
   \<and> 0 \<le> lastCommandStartIdx (run evs)
   \<and> (int (length (logs_of st)) \<le> summarize_startIdx args st \<longrightarrow>
        serial_summarize_lines args st = logs_of st)
   \<and> (int (length (logs_of st)) \<le> lastCommandStartIdx st \<longrightarrow>
        serial_summarize_lines None st = logs_of st)"
proof (intro conjI impI)
  show "logs_of (push_line cap l st) = drop (length (logs_of st) + 1 - cap) (logs_of st @ [l])"
    by (rule logs_push_line)
  show "lastCommandStartIdx (push_line cap l st) =
       (if length (logs_of st) + 1 - cap = 0 then lastCommandStartIdx st
        else max 0 (lastCommandStartIdx st - int (length (logs_of st) + 1 - cap)))"
    by (simp add: idx_push_line)
  show "0 \<le> lastCommandStartIdx (push_line cap l st)" if "0 \<le> lastCommandStartIdx st"
    using that by (simp add: idx_push_line)
  show "0 \<le> lastCommandStartIdx (run evs)"
    using inv_run [of evs] by (simp add: ring_inv_def)
  show "serial_summarize_lines args st = logs_of st"
    if "int (length (logs_of st)) \<le> summarize_startIdx args st"
    using that by (simp add: serial_summarize_lines_def slice_from_def Let_def)
  show "serial_summarize_lines None st = logs_of st"
    if "int (length (logs_of st)) \<le> lastCommandStartIdx st"
    using that by (simp add: serial_summarize_lines_def summarize_startIdx_def firstWord_def
        isWhiteSpace_def isDigit_def slice_from_def Let_def)
qed

theorem fence_follows_eviction_witness:
  "lastCommandStartIdx fenced_state = 3
   \<and> logs_of (push_line 3 ''l4'' fenced_state) = [''l2'', ''l3'', ''l4'']
   \<and> lastCommandStartIdx (push_line 3 ''l4'' fenced_state) = 2
   \<and> lastCommandStartIdx (fold (push_line 3) [''l4'', ''l5'', ''l6'', ''l7''] fenced_state) = 0
   \<and> logs_of (push_line 3 ''l8'' (serial_clear fenced_state)) = [''l8'']
   \<and> lastCommandStartIdx (push_line 3 ''l8'' (serial_clear fenced_state)) = 3
   \<and> serial_summarize_lines None (push_line 3 ''l8'' (serial_clear fenced_state)) = [''l8'']"
  using fence_follows_eviction [of 3 "''l4''" fenced_state "[]" None]
    fence_follows_eviction [of 3 "''l8''" "push_line 3 ''l8'' (serial_clear fenced_state)" "[]" None]
  by (simp add: fenced_state_def init_state_def logs_of_def push_line_def serial_send_def
      serial_connect_def serial_clear_def Let_def)

section \<open>The claims about the subcommands\<close>

text \<open>
  Claim C5, as the code has it. \<open>send(text)\<close> on a console whose port is open writes the
  text followed by one line break, whether or not the text already ends with one, and
  emits nothing; on a console with no port, or whose port is not open, it writes nothing
  and emits the error \<open>Serial port not open\<close>.
\<close>

theorem send_appends_line_break:
  "(port c \<noteq> None \<and> isOpen c \<longrightarrow>
      transmitted (console_send d c) = transmitted c @ [d @ [CHR 0x0A]]
      \<and> emitted (console_send d c) = emitted c)
   \<and> (port c = None \<or> \<not> isOpen c \<longrightarrow>
      transmitted (console_send d c) = transmitted c
      \<and> emitted (console_send d c) = emitted c @ [Ev_error ''Serial port not open''])"
  by (auto simp: console_send_def transmitted_def port_write_def emit_def split: option.splits)

theorem send_appends_line_break_witness:
  "port open_console \<noteq> None \<and> isOpen open_console
   \<and> transmitted (console_send ''uname -r'' open_console) = [''uname -r\<newline>'']
   \<and> emitted (console_send ''uname -r'' open_console) = [Ev_open]
   \<and> port new_SerialConsole = None
   \<and> transmitted (console_send ''uname -r'' new_SerialConsole) = []
   \<and> emitted (console_send ''uname -r'' new_SerialConsole) = [Ev_error ''Serial port not open'']"
  using send_appends_line_break [of open_console "''uname -r''"]
    send_appends_line_break [of new_SerialConsole "''uname -r''"]
  by (simp add: open_console_def on_port_open_def console_connect_def new_SerialConsole_def
      emit_def transmitted_def)

text \<open>
  Claim C5 as stated fails: a text that already ends with a line break is sent with a
  second one, where the specification's payload is the text itself.
\<close>

theorem send_line_break_counterexample:
  "transmitted (console_send ''ls\<newline>'' open_console) = [''ls\<newline>\<newline>'']
   \<and> spec_send_payload ''ls\<newline>'' = ''ls\<newline>''
   \<and> transmitted (console_send ''ls\<newline>'' open_console)
       \<noteq> transmitted open_console @ [spec_send_payload ''ls\<newline>'']"
  by (simp add: open_console_def on_port_open_def console_connect_def new_SerialConsole_def
      emit_def transmitted_def console_send_def port_write_def spec_send_payload_def)

text \<open>
  Claim C6, as the code has it. For a count of at least one, \<open>/serial tail\<close> returns the
  last \<open>n\<close> lines of the ring in their stored order, all of them when \<open>n\<close> exceeds the
  length; this holds for every argument written in decimal digits; and \<open>tail 3\<close> on a
  ring holding \<open>a, b, c, d, e\<close> returns \<open>c, d, e\<close>.
\<close>

theorem tail_returns_last_lines:
  "(1 \<le> tail_count args \<longrightarrow>
      serial_tail args st = drop (length (logs_of st) - nat (tail_count args)) (logs_of st))
   \<and> (ds \<noteq> [] \<and> list_all isDigit ds \<and> 1 \<le> decimal ds \<longrightarrow>
      serial_tail (Some ds) st = drop (length (logs_of st) - nat (decimal ds)) (logs_of st))
   \<and> (logs_of st = [''a'', ''b'', ''c'', ''d'', ''e''] \<longrightarrow>
      serial_tail (Some ''3'') st = [''c'', ''d'', ''e''])"
proof (intro conjI impI)
  show g: "serial_tail args st = drop (length (logs_of st) - nat (tail_count args)) (logs_of st)"
    if "1 \<le> tail_count args" for args
    using that by (simp add: serial_tail_def slice_from_neg)
  show d: "serial_tail (Some ds) st = drop (length (logs_of st) - nat (decimal ds)) (logs_of st)"
    if h: "ds \<noteq> [] \<and> list_all isDigit ds \<and> 1 \<le> decimal ds" for ds
  proof -
    have "tail_count (Some ds) = decimal ds"
      using h by (simp add: tail_count_def parseInt_digits)
    then show ?thesis using g [of "Some ds"] h by simp
  qed
  show "serial_tail (Some ''3'') st = [''c'', ''d'', ''e'']"
    if "logs_of st = [''a'', ''b'', ''c'', ''d'', ''e'']"
    using d [of "''3''"] that by (simp add: isDigit_def decimal_def digitValue_def)
qed

theorem tail_returns_last_lines_witness:
  "1 \<le> tail_count (Some ''2'')
   \<and> serial_tail (Some ''2'') five_lines = [''d'', ''e'']
   \<and> ''7'' \<noteq> [] \<and> list_all isDigit ''7'' \<and> 1 \<le> decimal ''7''
   \<and> serial_tail (Some ''7'') five_lines = [''a'', ''b'', ''c'', ''d'', ''e'']
   \<and> serial_tail (Some ''3'') five_lines = [''c'', ''d'', ''e'']"
  using tail_returns_last_lines [of "Some ''2''" five_lines "''7''"]
  by (simp add: logs_five_lines tail_count_def parseInt_def trimStart_def isWhiteSpace_def
      isDigit_def decimal_def digitValue_def Let_def)

text \<open>
  Claim C6 as stated fails at \<open>n = 0\<close>: the count \<open>0\<close> is falsy and is replaced by the
  default of twenty, so \<open>tail 0\<close> on a ring of five lines returns all five, not none.
\<close>

theorem tail_zero_counterexample:
  "logs_of five_lines = [''a'', ''b'', ''c'', ''d'', ''e'']
   \<and> serial_tail (Some ''0'') five_lines = [''a'', ''b'', ''c'', ''d'', ''e'']
   \<and> serial_tail (Some ''0'') five_lines \<noteq> []"
  by (simp add: logs_five_lines serial_tail_def slice_from_def tail_count_def parseInt_def trimStart_def isWhiteSpace_def
      isDigit_def decimal_def digitValue_def Let_def)

text \<open>
  Claim C7. \<open>/serial clear\<close> empties the ring in place: \<open>recentLogs\<close> and
  \<open>GEMINI_SERIAL_LOGS\<close> hold the references they held, the array they denote is empty
  after one clear and after two, \<open>/serial tail\<close> with any argument then returns no line,
  and in every run a tool reading the global name sees the emptied ring.
\<close>

theorem clear_empties_in_place:
  "recentLogs (serial_clear st) = recentLogs st
   \<and> GEMINI_SERIAL_LOGS (serial_clear st) = GEMINI_SERIAL_LOGS st
   \<and> logs_of (serial_clear st) = []
   \<and> logs_of (serial_clear (serial_clear st)) = []
   \<and> serial_tail args (serial_clear st) = []
   \<and> serial_tail args (serial_clear (serial_clear st)) = []
   \<and> global_logs (serial_clear (run evs)) = []"
  using inv_run [of evs]
  by (simp add: serial_clear_def logs_of_def global_logs_def serial_tail_def slice_from_def ring_inv_def)

theorem clear_empties_in_place_witness:
  "logs_of five_lines = [''a'', ''b'', ''c'', ''d'', ''e'']
   \<and> recentLogs (serial_clear five_lines) = recentLogs five_lines
   \<and> logs_of (serial_clear five_lines) = []
   \<and> global_logs (serial_clear five_lines) = []
   \<and> serial_tail (Some ''3'') (serial_clear five_lines) = []
   \<and> serial_tail None (serial_clear (serial_clear five_lines)) = []"
  using clear_empties_in_place [of five_lines "Some ''3''"
      "[Connect ''/dev/ttyUSB0'' 115200, Port_open, Data ''a\<newline>b\<newline>c\<newline>d\<newline>e\<newline>'']"]
    clear_empties_in_place [of five_lines None "[]"]
  by (simp add: logs_five_lines five_lines_def [symmetric])

text \<open>
  Claim C9, as the code has it. \<open>/serial disconnect\<close> drops the worker, deletes
  \<open>GEMINI_ACTIVE_SERIAL\<close> and the saved \<open>GEMINI_SERIAL_PORT\<close>, keeps the console in
  \<open>serial\<close>, and leaves every array, both names of the ring and so the contents of the ring
  as they were. \<open>SerialConsole.disconnect\<close> closes the port only under its guard
  \<open>this.port && this.isOpen\<close>: the port of a console that has opened is closed, and with
  it the transport is released; a console that has not opened is left exactly as it was.
\<close>

theorem disconnect_keeps_logs:
  "GEMINI_ACTIVE_SERIAL (serial_disconnect st) = None
   \<and> GEMINI_SERIAL_PORT (serial_disconnect st) = None
   \<and> serialWorker (serial_disconnect st) = None
   \<and> serial (serial_disconnect st) = serial st
   \<and> (serial st = Some r \<and> port (consoles st r) = Some p \<and> isOpen (consoles st r) \<longrightarrow>
        port (consoles (serial_disconnect st) r) = Some (p\<lparr>closed := True\<rparr>)
        \<and> transport_released (serial_disconnect st))
   \<and> (serial st = Some r \<and> \<not> isOpen (consoles st r) \<longrightarrow>
        consoles (serial_disconnect st) r = consoles st r)
   \<and> arrays (serial_disconnect st) = arrays st
   \<and> recentLogs (serial_disconnect st) = recentLogs st
   \<and> GEMINI_SERIAL_LOGS (serial_disconnect st) = GEMINI_SERIAL_LOGS st
   \<and> logs_of (serial_disconnect st) = logs_of st
   \<and> global_logs (serial_disconnect st) = global_logs st"
  by (auto simp: serial_disconnect_def console_disconnect_def logs_of_def global_logs_def Let_def
      transport_released_def split: option.splits)

theorem disconnect_keeps_logs_witness:
  "serial connected_state = Some 1
   \<and> port (consoles connected_state 1)
       = Some \<lparr>path = ''/dev/ttyUSB0'', baudRate = 115200, written = [], closed = False\<rparr>
   \<and> isOpen (consoles connected_state 1)
   \<and> GEMINI_ACTIVE_SERIAL connected_state = Some 1
   \<and> GEMINI_SERIAL_PORT connected_state = Some ''/dev/ttyUSB0''
   \<and> port (consoles (serial_disconnect connected_state) 1)
       = Some \<lparr>path = ''/dev/ttyUSB0'', baudRate = 115200, written = [], closed = True\<rparr>
   \<and> transport_released (serial_disconnect connected_state)
   \<and> GEMINI_ACTIVE_SERIAL (serial_disconnect connected_state) = None
   \<and> GEMINI_SERIAL_PORT (serial_disconnect connected_state) = None
   \<and> logs_of (serial_disconnect connected_state) = [''a'', ''b'']
   \<and> serial opening_state = Some 1
   \<and> \<not> isOpen (consoles opening_state 1)
   \<and> consoles (serial_disconnect opening_state) 1 = consoles opening_state 1"
  using disconnect_keeps_logs [of connected_state 1
      "\<lparr>path = ''/dev/ttyUSB0'', baudRate = 115200, written = [], closed = False\<rparr>"]
    disconnect_keeps_logs [of opening_state 1]
    connected_state_eval opening_state_eval
  by simp

text \<open>
  Claim C9 as stated, that \<open>disconnect\<close> releases the transport, fails when the command
  comes before the port has opened: the port is not closed, the session state is cleared
  all the same, and when the port then opens its lines still reach the ring and
  \<open>/serial send\<close> still transmits.
\<close>

theorem disconnect_before_open_counterexample:
  "serial (run early_disconnect) = Some 1
   \<and> port (consoles (run early_disconnect) 1)
       = Some \<lparr>path = ''/dev/ttyUSB0'', baudRate = 115200, written = [], closed = False\<rparr>
   \<and> \<not> transport_released (run early_disconnect)
   \<and> GEMINI_ACTIVE_SERIAL (run early_disconnect) = None
   \<and> logs_of (run (early_disconnect @ [Port_open, Data ''late\<newline>''])) = [''late'']
   \<and> transmitted (consoles (run (early_disconnect @ [Port_open, Send ''reboot''])) 1) = [''reboot\<newline>'']"
proof -
  have a: "port (consoles (run early_disconnect) 1)
       = Some \<lparr>path = ''/dev/ttyUSB0'', baudRate = 115200, written = [], closed = False\<rparr>"
    by (simp only: early_disconnect_eval(2) SerialConsole.simps)
  have b: "\<not> transport_released (run early_disconnect)"
    by (simp add: transport_released_def early_disconnect_eval(1) a del: One_nat_def)
  show ?thesis
    by (intro conjI early_disconnect_eval(1) a b early_disconnect_eval(3) late_traffic_eval)
qed

section \<open>The claims about the probes\<close>

text \<open>
  Claim C10. In the device-info and driver-info pollers a line is taken for a marker only
  if the whole line, trimmed, equals the marker. Lines are extracted exactly when some
  line trims to the start marker and a later line trims to the end marker; the start line
  is then the first line that trims to the start marker, the end line is the first later
  line that trims to the end marker, and the payload is the lines strictly between the
  two, both marker lines left out. With no such pair of lines nothing is extracted. A poll
  within the time limit over a ring with such a pair resolves with the lines between the
  two marker lines (joined, for device info; sorted into their sections, for driver info),
  a poll within the time limit over a ring without one waits, and whatever a poll within
  the time limit resolves with comes from such an extraction. A line that holds \<open>echo\<close> and
  the marker, as the echoed script does, never trims to the marker.
\<close>

theorem markers_are_whole_lines:
  "(lines_between S E ls = Some payload \<longleftrightarrow>
      (\<exists>i j. i < j \<and> j < length ls \<and> trim (ls ! i) = S \<and> trim (ls ! j) = E
         \<and> (\<forall>k<i. trim (ls ! k) \<noteq> S) \<and> (\<forall>k. i < k \<and> k < j \<longrightarrow> trim (ls ! k) \<noteq> E)
         \<and> payload = map (\<lambda>k. ls ! k) [i + 1..<j]))
   \<and> (lines_between S E ls = None \<longleftrightarrow>
        \<not> (\<exists>i j. i < j \<and> j < length ls \<and> trim (ls ! i) = S \<and> trim (ls ! j) = E))
   \<and> ((\<forall>l\<in>set ls. trim l \<noteq> S) \<or> (\<forall>l\<in>set ls. trim l \<noteq> E) \<longrightarrow> lines_between S E ls = None)
   \<and> (now - startTime \<le> 20000 \<and> drop startLen logs = front @ s # mid @ e # rest
        \<and> trim s = START_MARK rid \<and> trim e = END_MARK rid
        \<and> (\<forall>l\<in>set front. trim l \<noteq> START_MARK rid) \<and> (\<forall>l\<in>set mid. trim l \<noteq> END_MARK rid) \<longrightarrow>
        info_tick rid startLen startTime (now, logs) = Resolve (join mid))
   \<and> (now \<le> deadline \<and> drop startLen logs = front @ s # mid @ e # rest
        \<and> trim s = DRV_START rid \<and> trim e = DRV_END rid
        \<and> (\<forall>l\<in>set front. trim l \<noteq> DRV_START rid) \<and> (\<forall>l\<in>set mid. trim l \<noteq> DRV_END rid) \<longrightarrow>
        driver_tick rid startLen deadline (now, logs) = Resolve (scan_sections mid))
   \<and> (now - startTime \<le> 20000
        \<and> lines_between (START_MARK rid) (END_MARK rid) (drop startLen logs) = None \<longrightarrow>
        info_tick rid startLen startTime (now, logs) = Wait)
   \<and> (now \<le> deadline
        \<and> lines_between (DRV_START rid) (DRV_END rid) (drop startLen logs) = None \<longrightarrow>
        driver_tick rid startLen deadline (now, logs) = Wait)
   \<and> (info_tick rid startLen startTime (now, logs) = Resolve resolved \<longrightarrow>
        (\<exists>payload. lines_between (START_MARK rid) (END_MARK rid) (drop startLen logs) = Some payload
           \<and> resolved = join payload))
   \<and> (driver_tick rid startLen deadline (now, logs) = Resolve r \<and> now \<le> deadline \<longrightarrow>
        (\<exists>payload. lines_between (DRV_START rid) (DRV_END rid) (drop startLen logs) = Some payload
           \<and> r = scan_sections payload))
   \<and> trim (pre @ ''echo '' @ START_MARK rid @ post) \<noteq> START_MARK rid
   \<and> trim (pre @ ''echo '' @ END_MARK rid @ post) \<noteq> END_MARK rid
   \<and> trim (pre @ ''echo '' @ DRV_START rid @ post) \<noteq> DRV_START rid
   \<and> trim (pre @ ''echo '' @ DRV_END rid @ post) \<noteq> DRV_END rid"
proof (intro conjI)
  show "lines_between S E ls = Some payload \<longleftrightarrow>
      (\<exists>i j. i < j \<and> j < length ls \<and> trim (ls ! i) = S \<and> trim (ls ! j) = E
         \<and> (\<forall>k<i. trim (ls ! k) \<noteq> S) \<and> (\<forall>k. i < k \<and> k < j \<longrightarrow> trim (ls ! k) \<noteq> E)
         \<and> payload = map (\<lambda>k. ls ! k) [i + 1..<j])"
    by (rule lines_between_Some_nth)
  show "lines_between S E ls = None \<longleftrightarrow>
        \<not> (\<exists>i j. i < j \<and> j < length ls \<and> trim (ls ! i) = S \<and> trim (ls ! j) = E)"
    by (rule lines_between_None_iff)
  show "(\<forall>l\<in>set ls. trim l \<noteq> S) \<or> (\<forall>l\<in>set ls. trim l \<noteq> E) \<longrightarrow> lines_between S E ls = None"
    using lines_between_no_start lines_between_no_end by blast
  show "now - startTime \<le> 20000 \<and> drop startLen logs = front @ s # mid @ e # rest
        \<and> trim s = START_MARK rid \<and> trim e = END_MARK rid
        \<and> (\<forall>l\<in>set front. trim l \<noteq> START_MARK rid) \<and> (\<forall>l\<in>set mid. trim l \<noteq> END_MARK rid) \<longrightarrow>
        info_tick rid startLen startTime (now, logs) = Resolve (join mid)"
    by (intro impI, elim conjE, rule info_tick_resolves)
  show "now \<le> deadline \<and> drop startLen logs = front @ s # mid @ e # rest
        \<and> trim s = DRV_START rid \<and> trim e = DRV_END rid
        \<and> (\<forall>l\<in>set front. trim l \<noteq> DRV_START rid) \<and> (\<forall>l\<in>set mid. trim l \<noteq> DRV_END rid) \<longrightarrow>
        driver_tick rid startLen deadline (now, logs) = Resolve (scan_sections mid)"
    by (intro impI, elim conjE, rule driver_tick_resolves)
  show "now - startTime \<le> 20000
        \<and> lines_between (START_MARK rid) (END_MARK rid) (drop startLen logs) = None \<longrightarrow>
        info_tick rid startLen startTime (now, logs) = Wait"
    by (simp add: info_tick_def slice_from_int Let_def)
  show "now \<le> deadline
        \<and> lines_between (DRV_START rid) (DRV_END rid) (drop startLen logs) = None \<longrightarrow>
        driver_tick rid startLen deadline (now, logs) = Wait"
    by (simp add: driver_tick_def slice_from_int Let_def)
  show "info_tick rid startLen startTime (now, logs) = Resolve resolved \<longrightarrow>
        (\<exists>payload. lines_between (START_MARK rid) (END_MARK rid) (drop startLen logs) = Some payload
           \<and> resolved = join payload)"
    by (auto simp: info_tick_def slice_from_int Let_def split: if_splits option.splits)
  show "driver_tick rid startLen deadline (now, logs) = Resolve r \<and> now \<le> deadline \<longrightarrow>
        (\<exists>payload. lines_between (DRV_START rid) (DRV_END rid) (drop startLen logs) = Some payload
           \<and> r = scan_sections payload)"
    by (auto simp: driver_tick_def slice_from_int Let_def split: if_splits option.splits)
  show "trim (pre @ ''echo '' @ START_MARK rid @ post) \<noteq> START_MARK rid"
    by (rule echo_line_ne [of _ "''__START_'' @ rid @ ''_''"]) (simp add: START_MARK_def)
  show "trim (pre @ ''echo '' @ END_MARK rid @ post) \<noteq> END_MARK rid"
    by (rule echo_line_ne [of _ "''__END_'' @ rid @ ''_''"]) (simp add: END_MARK_def)
  show "trim (pre @ ''echo '' @ DRV_START rid @ post) \<noteq> DRV_START rid"
    by (rule echo_line_ne [of _ "''__DRV_START_'' @ rid @ ''_''"]) (simp add: DRV_START_def)
  show "trim (pre @ ''echo '' @ DRV_END rid @ post) \<noteq> DRV_END rid"
    by (rule echo_line_ne [of _ "''__DRV_END_'' @ rid @ ''_''"]) (simp add: DRV_END_def)
qed

theorem markers_are_whole_lines_witness:
  "lines_between (START_MARK ''k3x9qz'') (END_MARK ''k3x9qz'') echoed_info = Some [''Foo'', ''arm64'']
   \<and> (\<exists>i j. i < j \<and> j < length echoed_info
         \<and> trim (echoed_info ! i) = START_MARK ''k3x9qz'' \<and> trim (echoed_info ! j) = END_MARK ''k3x9qz''
         \<and> (\<forall>k<i. trim (echoed_info ! k) \<noteq> START_MARK ''k3x9qz'')
         \<and> (\<forall>k. i < k \<and> k < j \<longrightarrow> trim (echoed_info ! k) \<noteq> END_MARK ''k3x9qz'')
         \<and> [''Foo'', ''arm64''] = map (\<lambda>k. echoed_info ! k) [i + 1..<j])
   \<and> info_tick ''k3x9qz'' 0 1000 (1150, echoed_info) = Resolve ''Foo\<newline>arm64''
   \<and> info_tick ''k3x9qz'' 0 1000 (1150, take 8 echoed_info) = Wait
   \<and> driver_tick ''k3x9qz'' 1 31000 (1150, driver_ring)
       = Resolve \<lparr>sysfs = [''D|/sys/bus/usb/devices/usb1|usb|usb''], lspci = [], lsusb = [], fw = [],
                  taint = ''4096''\<rparr>
   \<and> driver_tick ''k3x9qz'' 0 31000 (1150, quiet_logs) = Wait
   \<and> (\<exists>payload. lines_between (START_MARK ''k3x9qz'') (END_MARK ''k3x9qz'') (drop 0 echoed_info)
          = Some payload \<and> ''Foo\<newline>arm64'' = join payload)
   \<and> (\<exists>payload. lines_between (DRV_START ''k3x9qz'') (DRV_END ''k3x9qz'') (drop 1 driver_ring)
          = Some payload
        \<and> \<lparr>sysfs = [''D|/sys/bus/usb/devices/usb1|usb|usb''], lspci = [], lsusb = [], fw = [],
             taint = ''4096''\<rparr> = scan_sections payload)
   \<and> lines_between (DRV_START ''k3x9qz'') (DRV_END ''k3x9qz'') quiet_logs = None
   \<and> \<not> (\<exists>i j. i < j \<and> j < length quiet_logs \<and> trim (quiet_logs ! i) = DRV_START ''k3x9qz''
          \<and> trim (quiet_logs ! j) = DRV_END ''k3x9qz'')
   \<and> trim (echoed_info ! 1) \<noteq> START_MARK ''k3x9qz''"
proof -
  note t = markers_are_whole_lines [where S = "START_MARK ''k3x9qz''" and E = "END_MARK ''k3x9qz''"
      and ls = echoed_info and payload = "[''Foo'', ''arm64'']" and rid = "''k3x9qz''"
      and pre = "''> ''" and post = "[]"]
  have e: "echoed_info ! 1 = ''> '' @ ''echo '' @ START_MARK ''k3x9qz'' @ []"
    by (simp add: echoed_info_def START_MARK_def)
  note 1 = t [THEN conjunct1, THEN iffD1, OF echoed_info_eval]
  note 2 = t [THEN conjunct2, THEN conjunct2, THEN conjunct2, THEN conjunct2, THEN conjunct2,
      THEN conjunct2, THEN conjunct2, THEN conjunct2, THEN conjunct2, THEN conjunct1]
  note ti = t [where now = 1150 and startTime = 1000 and startLen = 0 and logs = echoed_info
      and front = "[''# cat > /tmp/diag.sh'', ''> echo __START_k3x9qz__'', ''> uname -m'',
         ''> echo __END_k3x9qz__'', ''# sh /tmp/diag.sh'']"
      and s = "''__START_k3x9qz__''" and mid = "[''Foo'', ''arm64'']" and e = "''__END_k3x9qz__''"
      and rest = "[''# '']"]
  have 3: "info_tick ''k3x9qz'' 0 1000 (1150, echoed_info) = Resolve ''Foo\<newline>arm64''"
    using ti [THEN conjunct2, THEN conjunct2, THEN conjunct2, THEN conjunct1]
      echoed_info_split echoed_info_marks join_foo by simp
  note td = t [where now = 1150 and deadline = 31000 and startLen = 1 and logs = driver_ring
      and front = "[''# sh /tmp/drvscan.sh'']"
      and s = "''__DRV_START_k3x9qz__''"
      and mid = "[''---SYSFS---'', ''D|/sys/bus/usb/devices/usb1|usb|usb'', ''---TAINT---'', ''4096'']"
      and e = "''__DRV_END_k3x9qz__''" and rest = "[''# '']"]
  have 4: "driver_tick ''k3x9qz'' 1 31000 (1150, driver_ring)
       = Resolve \<lparr>sysfs = [''D|/sys/bus/usb/devices/usb1|usb|usb''], lspci = [], lsusb = [], fw = [],
                  taint = ''4096''\<rparr>"
    using td [THEN conjunct2, THEN conjunct2, THEN conjunct2, THEN conjunct2, THEN conjunct1]
      driver_ring_split driver_ring_marks driver_ring_sections by simp
  note tw = t [where now = 1150 and startTime = 1000 and startLen = 0 and logs = "take 8 echoed_info"]
  have 5: "info_tick ''k3x9qz'' 0 1000 (1150, take 8 echoed_info) = Wait"
    using tw [THEN conjunct2, THEN conjunct2, THEN conjunct2, THEN conjunct2, THEN conjunct2,
        THEN conjunct1] waiting_rings(1) by simp
  note tq = t [where now = 1150 and deadline = 31000 and startLen = 0 and logs = quiet_logs]
  have 6: "driver_tick ''k3x9qz'' 0 31000 (1150, quiet_logs) = Wait"
    using tq [THEN conjunct2, THEN conjunct2, THEN conjunct2, THEN conjunct2, THEN conjunct2,
        THEN conjunct2, THEN conjunct1] waiting_rings(2) by simp
  note 7 = ti [where resolved = "''Foo\<newline>arm64''", THEN conjunct2, THEN conjunct2, THEN conjunct2,
      THEN conjunct2, THEN conjunct2, THEN conjunct2, THEN conjunct2, THEN conjunct1, THEN mp, OF 3]
  have "driver_tick ''k3x9qz'' 1 31000 (1150, driver_ring)
       = Resolve \<lparr>sysfs = [''D|/sys/bus/usb/devices/usb1|usb|usb''], lspci = [], lsusb = [], fw = [],
                  taint = ''4096''\<rparr> \<and> (1150::int) \<le> 31000"
    by (intro conjI 4) simp
  note 8 = td [where r = "\<lparr>sysfs = [''D|/sys/bus/usb/devices/usb1|usb|usb''], lspci = [], lsusb = [],
      fw = [], taint = ''4096''\<rparr>", THEN conjunct2, THEN conjunct2, THEN conjunct2,
      THEN conjunct2, THEN conjunct2, THEN conjunct2, THEN conjunct2, THEN conjunct2, THEN conjunct1,
      THEN mp, OF this]
  note tn = markers_are_whole_lines [where S = "DRV_START ''k3x9qz''" and E = "DRV_END ''k3x9qz''"
      and ls = quiet_logs]
  have 9: "lines_between (DRV_START ''k3x9qz'') (DRV_END ''k3x9qz'') quiet_logs = None"
    using tn [THEN conjunct2, THEN conjunct2, THEN conjunct1] quiet_logs_no_end(2) by blast
  note 10 = tn [THEN conjunct2, THEN conjunct1, THEN iffD1, OF 9]
  show ?thesis
    unfolding e by (intro conjI echoed_info_eval 1 3 5 4 6 7 8 9 10 2)
qed

text \<open>
  Claim C2, as the code has it. Let the timer keep its interval of 150 ms, let some tick
  come after the deadline, and let no line of the ring ever trim to the end marker. Then
  the device-info poller rejects with its timeout error at a tick that is after the
  deadline of 20 s and no more than one interval after it. The driver-info poller, whose
  promise has no \<open>reject\<close>, at such a tick resolves with the empty scan: no section lines
  and taint \<open>0\<close>. Whatever the timer does, the device-info poller never resolves while
  the end marker has not appeared.
\<close>

theorem end_marker_missing_times_out:
  "(paced 150 startTime ticks \<and> (\<exists>t\<in>set ticks. startTime + 20000 < fst t)
      \<and> (\<forall>t\<in>set ticks. \<forall>l\<in>set (snd t). trim l \<noteq> END_MARK rid) \<longrightarrow>
      (\<exists>at. poll (info_tick rid startLen startTime) ticks
           = Rejected_at at ''Timed out waiting for device info''
         \<and> startTime + 20000 < at \<and> at \<le> startTime + 20000 + 150))
   \<and> (paced 150 (deadline - 30000) ticks \<and> (\<exists>t\<in>set ticks. deadline < fst t)
      \<and> (\<forall>t\<in>set ticks. \<forall>l\<in>set (snd t). trim l \<noteq> DRV_END rid) \<longrightarrow>
      (\<exists>at. poll (driver_tick rid startLen deadline) ticks = Resolved_at at empty_scan
         \<and> deadline < at \<and> at \<le> deadline + 150))
   \<and> ((\<forall>t\<in>set ticks. \<forall>l\<in>set (snd t). trim l \<noteq> END_MARK rid) \<longrightarrow>
      (\<forall>at payload. poll (info_tick rid startLen startTime) ticks \<noteq> Resolved_at at payload))"
proof (intro conjI impI allI)
  assume "paced 150 startTime ticks \<and> (\<exists>t\<in>set ticks. startTime + 20000 < fst t)
      \<and> (\<forall>t\<in>set ticks. \<forall>l\<in>set (snd t). trim l \<noteq> END_MARK rid)"
  then show "\<exists>at. poll (info_tick rid startLen startTime) ticks
           = Rejected_at at ''Timed out waiting for device info''
         \<and> startTime + 20000 < at \<and> at \<le> startTime + 20000 + 150"
    using info_times_out [of 150 startTime ticks startTime rid startLen] by simp
next
  assume "paced 150 (deadline - 30000) ticks \<and> (\<exists>t\<in>set ticks. deadline < fst t)
      \<and> (\<forall>t\<in>set ticks. \<forall>l\<in>set (snd t). trim l \<noteq> DRV_END rid)"
  then show "\<exists>at. poll (driver_tick rid startLen deadline) ticks = Resolved_at at empty_scan
         \<and> deadline < at \<and> at \<le> deadline + 150"
    using driver_gives_up [of 150 "deadline - 30000" ticks deadline rid startLen] by simp
next
  fix at payload
  assume "\<forall>t\<in>set ticks. \<forall>l\<in>set (snd t). trim l \<noteq> END_MARK rid"
  then show "poll (info_tick rid startLen startTime) ticks \<noteq> Resolved_at at payload"
    by (rule info_never_resolves)
qed

theorem end_marker_missing_times_out_witness:
  "(\<exists>at. poll (info_tick ''k3x9qz'' 0 0) (steady 0 150 210 quiet_logs)
           = Rejected_at at ''Timed out waiting for device info''
         \<and> 0 + 20000 < at \<and> at \<le> 0 + 20000 + 150)
   \<and> (\<exists>at. poll (driver_tick ''k3x9qz'' 0 30000) (steady 0 150 210 quiet_logs) = Resolved_at at empty_scan
         \<and> 30000 < at \<and> at \<le> 30000 + 150)
   \<and> poll (info_tick ''k3x9qz'' 0 0) (steady 0 150 210 quiet_logs)
       = Rejected_at 20100 ''Timed out waiting for device info''
   \<and> (\<forall>at payload. poll (info_tick ''k3x9qz'' 0 0) (steady 0 150 210 quiet_logs)
         \<noteq> Resolved_at at payload)"
proof -
  note t = end_marker_missing_times_out [of 0 "steady 0 150 210 quiet_logs" "''k3x9qz''" 0 30000]
  have p: "paced 150 0 (steady 0 150 210 quiet_logs)"
    by (rule paced_steady) simp
  have late: "\<exists>t\<in>set (steady 0 150 210 quiet_logs). 30000 < fst t"
    using last_steady [of 209 210 0 150 quiet_logs] by force
  then have late': "\<exists>t\<in>set (steady 0 150 210 quiet_logs). 0 + 20000 < fst t"
    by force
  have q1: "\<forall>t\<in>set (steady 0 150 210 quiet_logs). \<forall>l\<in>set (snd t). trim l \<noteq> END_MARK ''k3x9qz''"
    using quiet_logs_no_end(1) by (auto dest!: snd_steady)
  have q2: "\<forall>t\<in>set (steady 0 150 210 quiet_logs). \<forall>l\<in>set (snd t). trim l \<noteq> DRV_END ''k3x9qz''"
    using quiet_logs_no_end(2) by (auto dest!: snd_steady)
  have a: "\<exists>at. poll (info_tick ''k3x9qz'' 0 0) (steady 0 150 210 quiet_logs)
           = Rejected_at at ''Timed out waiting for device info''
         \<and> 0 + 20000 < at \<and> at \<le> 0 + 20000 + 150"
    by (rule t [THEN conjunct1, THEN mp]) (intro conjI p late' q1)
  have b: "\<exists>at. poll (driver_tick ''k3x9qz'' 0 30000) (steady 0 150 210 quiet_logs) = Resolved_at at empty_scan
         \<and> 30000 < at \<and> at \<le> 30000 + 150"
    by (rule t [THEN conjunct2, THEN conjunct1, THEN mp]) (use p late q2 in simp)
  have c: "\<forall>at payload. poll (info_tick ''k3x9qz'' 0 0) (steady 0 150 210 quiet_logs)
         \<noteq> Resolved_at at payload"
    by (rule t [THEN conjunct2, THEN conjunct2, THEN mp]) (rule q1)
  show ?thesis by (intro conjI a b c quiet_polls)
qed

text \<open>
  Claim C2 as stated fails for the driver-info probe: with the end marker never in the
  ring and the timer ticking every 150 ms, its promise is resolved at 30150 ms with the
  empty scan, and is not rejected.
\<close>

theorem driver_timeout_counterexample:
  "list_all (\<lambda>l. trim l \<noteq> DRV_END ''k3x9qz'') quiet_logs
   \<and> poll (driver_tick ''k3x9qz'' 0 30000) (steady 0 150 210 quiet_logs) = Resolved_at 30150 empty_scan
   \<and> \<not> timed_out (poll (driver_tick ''k3x9qz'' 0 30000) (steady 0 150 210 quiet_logs))"
proof -
  have "list_all (\<lambda>l. trim l \<noteq> DRV_END ''k3x9qz'') quiet_logs"
    using quiet_logs_no_end(2) by (simp add: list_all_iff)
  then show ?thesis by (simp add: quiet_polls timed_out_def)
qed

text \<open>
  Claim C1, as the code has it. With two or more complete pairs in the joined ring, the
  device-tree probe takes the text of the second pair in scan order, whatever follows it;
  with one pair it takes that pair's text if it holds a line starting with \<open>N|\<close> and an
  empty payload otherwise. The real-time probe takes the text of the second pair as well,
  provided no further start marker stands between the first start marker and the second
  pair or inside the second pair; while the text holds at most one start marker it
  isolates nothing and goes on polling. The device-info probe, matching whole lines,
  takes the lines between the first start line and the first end line after it,
  whatever pairs follow. The second pair is the pair of the specification's policy
  when the text holds exactly two.
\<close>

theorem extraction_selects_pair:
  "(marker_pairs full (DT_START ident) (DT_END ident) 0 = p1 # p2 # others \<longrightarrow>
       dt_extract ident full = Resolve (between full (DT_START ident) p2))
   \<and> (marker_pairs full (DT_START ident) (DT_END ident) 0 = [p1] \<longrightarrow>
       dt_extract ident full =
         Resolve (if has_node_line (between full (DT_START ident) p1)
                  then between full (DT_START ident) p1 else []))
   \<and> (marker_pairs full (RT_START ident) (RT_END ident) 0 = p1 # p2 # others
        \<and> (\<forall>j. fst p1 + length (RT_START ident) \<le> j \<and> j < fst p2
               \<longrightarrow> \<not> occurs_at full (RT_START ident) j)
        \<and> (\<forall>j. fst p2 + length (RT_START ident) \<le> j \<and> j < snd p2 + length (RT_END ident)
               \<longrightarrow> \<not> occurs_at full (RT_START ident) j) \<longrightarrow>
       rt_isolate ident full = Some (between full (RT_START ident) p2))
   \<and> ((\<forall>j k. occurs_at full (RT_START ident) j \<and> occurs_at full (RT_START ident) k \<longrightarrow> j = k) \<longrightarrow>
       rt_isolate ident full = None)
   \<and> (trim s = S \<and> trim e = E \<and> (\<forall>l\<in>set pre. trim l \<noteq> S) \<and> (\<forall>l\<in>set mid. trim l \<noteq> E) \<longrightarrow>
       lines_between S E (pre @ s # mid @ e # post) = Some mid)
   \<and> (marker_pairs full S E 0 = [p1, p2] \<longrightarrow> spec_select full S E = Some (between full S p2))"
proof (intro conjI impI)
  assume "marker_pairs full (DT_START ident) (DT_END ident) 0 = p1 # p2 # others"
  then show "dt_extract ident full = Resolve (between full (DT_START ident) p2)"
    by (rule dt_second_pair)
next
  assume "marker_pairs full (DT_START ident) (DT_END ident) 0 = [p1]"
  then show "dt_extract ident full =
         Resolve (if has_node_line (between full (DT_START ident) p1)
                  then between full (DT_START ident) p1 else [])"
    by (rule dt_single_pair)
next
  assume "marker_pairs full (RT_START ident) (RT_END ident) 0 = p1 # p2 # others
        \<and> (\<forall>j. fst p1 + length (RT_START ident) \<le> j \<and> j < fst p2
               \<longrightarrow> \<not> occurs_at full (RT_START ident) j)
        \<and> (\<forall>j. fst p2 + length (RT_START ident) \<le> j \<and> j < snd p2 + length (RT_END ident)
               \<longrightarrow> \<not> occurs_at full (RT_START ident) j)"
  then show "rt_isolate ident full = Some (between full (RT_START ident) p2)"
    using rt_second_pair [of full ident p1 p2 others] by blast
next
  assume "\<forall>j k. occurs_at full (RT_START ident) j \<and> occurs_at full (RT_START ident) k \<longrightarrow> j = k"
  then show "rt_isolate ident full = None"
    by (rule rt_single_start)
next
  assume "trim s = S \<and> trim e = E \<and> (\<forall>l\<in>set pre. trim l \<noteq> S) \<and> (\<forall>l\<in>set mid. trim l \<noteq> E)"
  then show "lines_between S E (pre @ s # mid @ e # post) = Some mid"
    using first_exact_pair [of s S e E pre mid post] by blast
next
  assume "marker_pairs full S E 0 = [p1, p2]"
  then show "spec_select full S E = Some (between full S p2)"
    by (simp add: spec_select_def)
qed

theorem extraction_selects_pair_witness:
  "dt_extract ''k3x9qz'' three_pairs = Resolve ''\<newline>> find /proc/device-tree\<newline>> echo ''
   \<and> dt_extract ''k3x9qz'' one_dt_pair = Resolve ''\<newline>N|/|model\<newline>''
   \<and> rt_isolate ''k3x9qz'' echoed_rt = Some ''\<newline>up 2 days\<newline>''
   \<and> rt_isolate ''k3x9qz'' one_pair = None
   \<and> lines_between (START_MARK ''k3x9qz'') (END_MARK ''k3x9qz'') two_exact_pairs = Some [''old'']
   \<and> spec_select echoed_rt (RT_START ''k3x9qz'') (RT_END ''k3x9qz'') = Some ''\<newline>up 2 days\<newline>''"
proof -
  note t = extraction_selects_pair
  have 1: "dt_extract ''k3x9qz'' three_pairs = Resolve ''\<newline>> find /proc/device-tree\<newline>> echo ''"
    using t [of three_pairs "''k3x9qz''" "(7, 59)" "(84, 136)" "[(154, 184)]", THEN conjunct1]
    by (simp add: example_pairs example_texts)
  have 2: "dt_extract ''k3x9qz'' one_dt_pair = Resolve ''\<newline>N|/|model\<newline>''"
    using t [of one_dt_pair "''k3x9qz''" "(0, 30)", THEN conjunct2, THEN conjunct1]
    by (simp add: example_pairs example_texts)
  have 3: "rt_isolate ''k3x9qz'' echoed_rt = Some ''\<newline>up 2 days\<newline>''"
    using t [of echoed_rt "''k3x9qz''" "(7, 43)" "(61, 91)" "[]", THEN conjunct2, THEN conjunct2, THEN conjunct1]
      echoed_rt_clean
    by (simp only: example_pairs example_texts simp_thms)
  have 4: "rt_isolate ''k3x9qz'' one_pair = None"
    using t [of one_pair "''k3x9qz''", THEN conjunct2, THEN conjunct2, THEN conjunct2, THEN conjunct1]
      one_pair_single_start
    by blast
  have "lines_between (START_MARK ''k3x9qz'') (END_MARK ''k3x9qz'')
      ([] @ ''__START_k3x9qz__'' # [''old''] @ ''__END_k3x9qz__'' # [''__START_k3x9qz__'', ''new'', ''__END_k3x9qz__''])
      = Some [''old'']"
    by (rule t [THEN conjunct2, THEN conjunct2, THEN conjunct2, THEN conjunct2, THEN conjunct1, THEN mp])
       (simp add: two_exact_pairs_hyps)
  then have 5: "lines_between (START_MARK ''k3x9qz'') (END_MARK ''k3x9qz'') two_exact_pairs = Some [''old'']"
    by (simp add: two_exact_pairs_def)
  have 6: "spec_select echoed_rt (RT_START ''k3x9qz'') (RT_END ''k3x9qz'') = Some ''\<newline>up 2 days\<newline>''"
    using t [of echoed_rt "''k3x9qz''" "(7, 43)" "(61, 91)" "[]" "[]" "RT_START ''k3x9qz''" "[]" "RT_END ''k3x9qz''",
        THEN conjunct2, THEN conjunct2, THEN conjunct2, THEN conjunct2, THEN conjunct2]
    by (simp add: example_pairs example_texts)
  show ?thesis by (intro conjI 1 2 3 4 5 6)
qed

text \<open>
  Claim C1 as stated fails. When the script has been echoed twice the joined ring holds
  three complete pairs: the device-tree probe returns the text of the second, a piece of
  the echo, where the specification's policy selects the third, the output. With exactly
  one complete pair, the script not being echoed, the real-time probe isolates nothing.
  Of two pairs of exact marker lines the device-info probe returns the lines of the
  first.
\<close>

theorem last_pair_counterexample:
  "marker_pairs three_pairs (DT_START ''k3x9qz'') (DT_END ''k3x9qz'') 0 = [(7, 59), (84, 136), (154, 184)]
   \<and> spec_select three_pairs (DT_START ''k3x9qz'') (DT_END ''k3x9qz'') = Some ''\<newline>N|/|model\<newline>''
   \<and> dt_extract ''k3x9qz'' three_pairs = Resolve ''\<newline>> find /proc/device-tree\<newline>> echo ''
   \<and> marker_pairs one_pair (RT_START ''k3x9qz'') (RT_END ''k3x9qz'') 0 = [(0, 30)]
   \<and> spec_select one_pair (RT_START ''k3x9qz'') (RT_END ''k3x9qz'') = Some ''\<newline>up 2 days\<newline>''
   \<and> rt_isolate ''k3x9qz'' one_pair = None
   \<and> lines_between (START_MARK ''k3x9qz'') (END_MARK ''k3x9qz'') two_exact_pairs = Some [''old'']"
  by (intro conjI; code_simp)

text \<open>
  Claim C8 fails on the code where the random value has a short expansion in radix 36:
  for the value one half the printed number is \<open>0.i\<close> and the id is the single character
  \<open>i\<close>; for zero the id is empty. The id never has more than six characters.
\<close>

theorem short_marker_id:
  "toString36 (1, 1) = ''0.i''
   \<and> runId (1, 1) = ''i''
   \<and> length (runId (1, 1)) < 6
   \<and> START_MARK (runId (1, 1)) = ''__START_i__''
   \<and> toString36 (0, 1) = ''0''
   \<and> runId (0, 1) = []
   \<and> length (runId r) \<le> 6"
  by (simp add: toString36_def runId_def slice_def digit36_def START_MARK_def)

end
